theory Spec2Isabelle
  imports Complex_Main "HOL-Library.Log_Nat"
begin

section \<open>The JavaScript values the components compute with\<close>

text \<open>
  The components are Vue single-file components written in TypeScript. Their pure
  computations are embedded here as HOL functions; drawing calls are left out.

  A property read on \<open>null\<close> or \<open>undefined\<close> raises a \<open>TypeError\<close>; it is the only
  exception the embedded code can raise.
\<close>

datatype error = TypeError

subsection \<open>Numbers\<close>

text \<open>
  A JavaScript number is an IEEE 754 double. A finite double is modelled by the
  rational number it denotes, and an arithmetic operation by the exact operation
  followed by \<open>fl\<close>, the rounding to the nearest double, a tie going to the double
  whose significand is even (what ECMA-262 writes as a bold F). A positive
  \<open>x\<close> with \<open>2^e \<le> x < 2^(e+1)\<close> is rounded to a multiple of \<open>2^(e-52)\<close>. The exponent
  is not bounded here: infinities and the subnormal numbers, far from the numbers
  of a chart a few hundred pixels wide, are not modelled. Comparisons are exact.
  The counts and the day indexes of the components are small integers, which are
  doubles, and are kept as natural numbers. The positions of the hover resolver
  are computed with \<open>fl\<close>; the angles of the pie layout, multiples of \<open>\<pi>\<close>, are
  idealised as real numbers (see there).
\<close>

definition floorLog2 :: "rat \<Rightarrow> int" where
  "floorLog2 x =
     (let (a, b) = quotient_of x; k = bitlen a - bitlen b
      in if x < 2 powi k then k - 1 else k)"

definition roundTiesToEven :: "rat \<Rightarrow> int" where
  "roundTiesToEven q =
     (let f = \<lfloor>q\<rfloor>; r = q - of_int f
      in if r < 1 / 2 then f else if 1 / 2 < r then f + 1 else if even f then f else f + 1)"

definition roundPos :: "rat \<Rightarrow> rat" where
  "roundPos x = (let u = 2 powi (floorLog2 x - 52) in of_int (roundTiesToEven (x / u)) * u)"

definition fl :: "rat \<Rightarrow> rat" where
  "fl x = (if x = 0 then 0 else if x < 0 then - roundPos (- x) else roundPos x)"

subsection \<open>Dates\<close>

text \<open>
  A \<open>Date\<close> holds a time value, a number of milliseconds since 1 January 1970
  UTC, and its methods read it in the local time zone. The dates of the entries
  and the keys of the calendar are all made from a calendar day, by
  \<open>d3.timeParse('%m/%d/%Y')\<close> or by \<open>new Date(year, month, day)\<close>; the calendar and
  the leaderboards compare such dates through \<open>getTime()\<close> and read their calendar
  fields, which are those of the day they were made from. A \<open>Date\<close> made from a
  calendar day is therefore modelled by the number of that day, counted from
  1 January 1970 (day 0). Only the day-bucket builder computes with the clock, when
  it steps a date by \<open>setDate(getDate() + 1)\<close>: there the time values and the time
  zone are modelled (subsection "Time values and the local time zone").

  The calendar arithmetic follows the definitions of ECMAScript (ECMA-262, "Date
  objects"): \<open>DayFromYear\<close>, \<open>YearFromTime\<close>, \<open>MonthFromTime\<close>, \<open>DateFromTime\<close>,
  \<open>WeekDay\<close> and \<open>MakeDay\<close>, on day numbers (\<open>Day(t)\<close> of a time value \<open>t\<close>).
\<close>

definition DayFromYear :: "int \<Rightarrow> int" where
  "DayFromYear y =
     365 * (y - 1970) + (y - 1969) div 4 - (y - 1901) div 100 + (y - 1601) div 400"

definition InLeapYear :: "int \<Rightarrow> bool" where
  "InLeapYear y = (y mod 4 = 0 \<and> (y mod 100 \<noteq> 0 \<or> y mod 400 = 0))"

definition DaysInYear :: "int \<Rightarrow> int" where
  "DaysInYear y = (if InLeapYear y then 366 else 365)"

lemma div_step:
  fixes a k :: int
  assumes "0 < k"
  shows "(a + 1) div k = a div k + (if (a + 1) mod k = 0 then 1 else 0)"
proof -
  define q r where "q = a div k" and "r = a mod k"
  have a: "a = k * q + r" and r0: "0 \<le> r" and rk: "r < k"
    using assms by (simp_all add: q_def r_def)
  show ?thesis
  proof (cases "r + 1 < k")
    case True
    have e: "a + 1 = k * q + (r + 1)" using a by simp
    have "(a + 1) div k = q" and "(a + 1) mod k = r + 1"
      using int_div_pos_eq [OF e] int_mod_pos_eq [OF e] r0 True by simp_all
    then show ?thesis using r0 by (simp add: q_def)
  next
    case False
    then have rk1: "r + 1 = k" using rk by simp
    have e: "a + 1 = k * (q + 1) + 0" using a rk1 by (simp add: algebra_simps)
    have "(a + 1) div k = q + 1" and "(a + 1) mod k = 0"
      using int_div_pos_eq [OF e] int_mod_pos_eq [OF e] assms by simp_all
    then show ?thesis by (simp add: q_def)
  qed
qed

lemma mod_shift: "(y - q * k) mod k = y mod (k::int)"
  using mod_mult_self1 [of y "- q" k] by simp

lemma DayFromYear_Suc: "DayFromYear (y + 1) = DayFromYear y + DaysInYear y"
proof -
  have d4: "(y - 1968) div 4 = (y - 1969) div 4 + (if y mod 4 = 0 then 1 else 0)"
    using div_step [of 4 "y - 1969"] mod_shift [of y 492 4] by simp
  have d100: "(y - 1900) div 100 = (y - 1901) div 100 + (if y mod 100 = 0 then 1 else 0)"
    using div_step [of 100 "y - 1901"] mod_shift [of y 19 100] by simp
  have d400: "(y - 1600) div 400 = (y - 1601) div 400 + (if y mod 400 = 0 then 1 else 0)"
    using div_step [of 400 "y - 1601"] mod_shift [of y 4 400] by simp
  have m1: "y mod 100 = 0" if "y mod 400 = 0"
  proof -
    have "400 dvd y" using that by (simp add: mod_eq_0_iff_dvd)
    moreover have "(100::int) dvd 400" by simp
    ultimately have "100 dvd y" by (rule dvd_trans [rotated])
    then show ?thesis by (simp add: mod_eq_0_iff_dvd)
  qed
  have m2: "y mod 4 = 0" if "y mod 100 = 0"
  proof -
    have "100 dvd y" using that by (simp add: mod_eq_0_iff_dvd)
    moreover have "(4::int) dvd 100" by simp
    ultimately have "4 dvd y" by (rule dvd_trans [rotated])
    then show ?thesis by (simp add: mod_eq_0_iff_dvd)
  qed
  have e: "DayFromYear (y + 1) =
      365 * (y - 1969) + (y - 1968) div 4 - (y - 1900) div 100 + (y - 1600) div 400"
    by (simp add: DayFromYear_def)
  show ?thesis
  proof (cases "y mod 4 = 0")
    case False
    then have "y mod 100 \<noteq> 0" "y mod 400 \<noteq> 0" using m1 m2 by auto
    with False show ?thesis
      unfolding e d4 d100 d400 by (simp add: DayFromYear_def DaysInYear_def InLeapYear_def)
  next
    case c4: True
    show ?thesis
    proof (cases "y mod 100 = 0")
      case False
      then have "y mod 400 \<noteq> 0" using m1 by auto
      with False c4 show ?thesis
        unfolding e d4 d100 d400 by (simp add: DayFromYear_def DaysInYear_def InLeapYear_def)
    next
      case c100: True
      show ?thesis
        unfolding e d4 d100 d400 using c4 c100
        by (cases "y mod 400 = 0") (simp_all add: DayFromYear_def DaysInYear_def InLeapYear_def)
    qed
  qed
qed

lemma DayFromYear_pred: "DayFromYear (y - 1) = DayFromYear y - DaysInYear (y - 1)"
  using DayFromYear_Suc [of "y - 1"] by simp

lemma DaysInYear_bounds: "365 \<le> DaysInYear y" "DaysInYear y \<le> 366"
  by (simp_all add: DaysInYear_def)

text \<open>
  \<open>YearFromTime(t)\<close> is the largest year \<open>y\<close> with \<open>DayFromYear(y) \<le> t\<close>. It is
  computed by a search downwards from an estimate that is never too small; the
  lemma \<open>YearFromTime_spec\<close> below shows that the search finds that year.
\<close>

function yearSearch :: "int \<Rightarrow> int \<Rightarrow> int" where
  "yearSearch y t = (if t < DayFromYear y then yearSearch (y - 1) t else y)"
  by pat_completeness auto
termination
proof (relation "measure (\<lambda>(y, t). nat (DayFromYear y - t))")
  show "wf (measure (\<lambda>(y, t). nat (DayFromYear y - t)))" by simp
next
  fix y t :: int
  assume "t < DayFromYear y"
  then show "((y - 1, t), (y, t)) \<in> measure (\<lambda>(y, t). nat (DayFromYear y - t))"
    using DayFromYear_pred [of y] DaysInYear_bounds [of "y - 1"] by simp
qed

declare yearSearch.simps [simp del]

definition YearFromTime :: "int \<Rightarrow> int" where
  "YearFromTime t = yearSearch (1970 + (if 0 \<le> t then t div 365 else t div 366)) t"

definition DayWithinYear :: "int \<Rightarrow> int" where
  "DayWithinYear t = t - DayFromYear (YearFromTime t)"

text \<open>
  \<open>monthStart leap m\<close> is the day within the year on which month \<open>m\<close> (0 = January)
  starts, the bounds of ECMAScript's table for \<open>MonthFromTime\<close>; \<open>m = 12\<close> gives
  the length of the year.
\<close>

definition monthStart :: "bool \<Rightarrow> int \<Rightarrow> int" where
  "monthStart leap m =
     (if m = 0 then 0 else if m = 1 then 31
      else (if leap then 1 else 0) +
        (if m = 2 then 59 else if m = 3 then 90 else if m = 4 then 120
         else if m = 5 then 151 else if m = 6 then 181 else if m = 7 then 212
         else if m = 8 then 243 else if m = 9 then 273 else if m = 10 then 304
         else if m = 11 then 334 else 365))"

text \<open>The month in which the day \<open>x\<close> of a year lies, and the length of a month.\<close>

definition monthOf :: "bool \<Rightarrow> int \<Rightarrow> int" where
  "monthOf leap x =
     (if x < monthStart leap 1 then 0 else if x < monthStart leap 2 then 1
      else if x < monthStart leap 3 then 2 else if x < monthStart leap 4 then 3
      else if x < monthStart leap 5 then 4 else if x < monthStart leap 6 then 5
      else if x < monthStart leap 7 then 6 else if x < monthStart leap 8 then 7
      else if x < monthStart leap 9 then 8 else if x < monthStart leap 10 then 9
      else if x < monthStart leap 11 then 10 else 11)"

definition monthLength :: "int \<Rightarrow> int \<Rightarrow> int" where
  "monthLength y m = monthStart (InLeapYear y) (m + 1) - monthStart (InLeapYear y) m"

definition MonthFromTime :: "int \<Rightarrow> int" where
  "MonthFromTime t = monthOf (InLeapYear (YearFromTime t)) (DayWithinYear t)"

definition DateFromTime :: "int \<Rightarrow> int" where
  "DateFromTime t =
     DayWithinYear t - monthStart (InLeapYear (YearFromTime t)) (MonthFromTime t) + 1"

definition WeekDay :: "int \<Rightarrow> int" where
  "WeekDay t = (t + 4) mod 7"

definition MakeDay :: "int \<Rightarrow> int \<Rightarrow> int \<Rightarrow> int" where
  "MakeDay year month date =
     (let ym = year + month div 12; mn = month mod 12
      in DayFromYear ym + monthStart (InLeapYear ym) mn + date - 1)"

text \<open>
  \<open>new Date(year, month, day)\<close>: a year from 0 to 99 means 1900 + year, as the
  constructor of ECMAScript has it. The methods \<open>getFullYear\<close>, \<open>getMonth\<close>,
  \<open>getDate\<close> and \<open>getDay\<close> read the fields of the local day.
\<close>

definition newDate :: "int \<Rightarrow> int \<Rightarrow> int \<Rightarrow> int" where
  "newDate year month day =
     MakeDay (if 0 \<le> year \<and> year \<le> 99 then 1900 + year else year) month day"

definition getFullYear :: "int \<Rightarrow> int" where
  "getFullYear t = YearFromTime t"

definition getMonth :: "int \<Rightarrow> int" where
  "getMonth t = MonthFromTime t"

definition getDate :: "int \<Rightarrow> int" where
  "getDate t = DateFromTime t"

definition getDay :: "int \<Rightarrow> int" where
  "getDay t = WeekDay t"

subsection \<open>Time values and the local time zone\<close>

text \<open>
  ECMAScript leaves the local time zone to the implementation, as the function
  \<open>LocalTZA(t, isUTC)\<close>: the offset of the local time from UTC, in milliseconds,
  at the UTC time value \<open>t\<close> when \<open>isUTC\<close> is true, and at the local time value \<open>t\<close>
  otherwise; a local time that a switch to daylight-saving time skips is read
  with the offset before the switch. The zone is a parameter here.

  \<open>LocalTime(t) = t + LocalTZA(t, true)\<close> and \<open>UTC(t) = t - LocalTZA(t, false)\<close>.
  \<open>new Date(y, m, d)\<close> has the time value \<open>UTC(MakeDate(MakeDay(y, m, d), 0))\<close>,
  which \<open>timeValue\<close> computes from the number of the calendar day.
  \<open>setDate(date)\<close> replaces the day of the month in the local time and keeps the
  time within the day:

  \<^verbatim>\<open>t = LocalTime(thisTimeValue)
newDate = MakeDate(MakeDay(YearFromTime(t), MonthFromTime(t), date), TimeWithinDay(t))
thisTimeValue = TimeClip(UTC(newDate))\<close>

  \<open>TimeClip\<close> only rejects time values beyond 8.64e15 and is left out.
\<close>

type_synonym TimeZone = "int \<Rightarrow> bool \<Rightarrow> int"

definition msPerDay :: int where
  "msPerDay = 86400000"

definition Day :: "int \<Rightarrow> int" where
  "Day t = t div msPerDay"

definition TimeWithinDay :: "int \<Rightarrow> int" where
  "TimeWithinDay t = t mod msPerDay"

definition MakeDate :: "int \<Rightarrow> int \<Rightarrow> int" where
  "MakeDate d time = d * msPerDay + time"

definition LocalTime :: "TimeZone \<Rightarrow> int \<Rightarrow> int" where
  "LocalTime LocalTZA t = t + LocalTZA t True"

definition UTC :: "TimeZone \<Rightarrow> int \<Rightarrow> int" where
  "UTC LocalTZA t = t - LocalTZA t False"

definition timeValue :: "TimeZone \<Rightarrow> int \<Rightarrow> int" where
  "timeValue LocalTZA d = UTC LocalTZA (MakeDate d 0)"

definition setDate :: "TimeZone \<Rightarrow> int \<Rightarrow> int \<Rightarrow> int" where
  "setDate LocalTZA thisTimeValue date =
     (let t = LocalTime LocalTZA thisTimeValue;
          newDate' = MakeDate (MakeDay (YearFromTime (Day t)) (MonthFromTime (Day t)) date)
                       (TimeWithinDay t)
      in UTC LocalTZA newDate')"

text \<open>
  Two time zones. A zone without daylight-saving time has one offset at all
  times (\<open>fixedOffset 0\<close> is UTC). \<open>saoPaulo\<close> has the rules of America/Sao_Paulo
  for the summer of 2018/19: three hours behind UTC, and two hours behind from
  4 November 2018, when the clocks went from 00:00 to 01:00, to 17 February 2019,
  when they went from 00:00 back to 23:00. The local times from 00:00 to 01:00 of
  4 November 2018 do not exist and are read with the offset before the switch.
\<close>

definition fixedOffset :: "int \<Rightarrow> TimeZone" where
  "fixedOffset c = (\<lambda>t isUTC. c)"

definition saoPaulo :: TimeZone where
  "saoPaulo t isUTC =
     (if isUTC then (if 1541300400000 \<le> t \<and> t < 1550368800000 then - 7200000 else - 10800000)
      else (if 1541293200000 \<le> t \<and> t < 1550361600000 then - 7200000 else - 10800000))"

subsection \<open>Entries\<close>

text \<open>
  \<open>type Entry = { Date: Date; Person: string; Game: string }\<close>. The field \<open>Date\<close>
  holds what the parser returned, which is \<open>null\<close> (here \<open>None\<close>) for a text it
  rejects: the non-null assertions of the source (\<open>parseDate(d.Date)!\<close>,
  \<open>as Date\<close>) exist for the type checker only.
\<close>

record Entry =
  Date :: "int option"
  Person :: string
  Game :: string

section \<open>Functions of d3 the components call\<close>

text \<open>
  \<open>d3.extent(values, accessor)\<close> skips \<open>null\<close> and returns the least and the
  greatest of the other values, or \<open>[undefined, undefined]\<close> (here \<open>None\<close>) when
  there is none.
\<close>

fun extentStep :: "(int \<times> int) option \<Rightarrow> int option \<Rightarrow> (int \<times> int) option" where
  "extentStep acc None = acc"
| "extentStep None (Some v) = Some (v, v)"
| "extentStep (Some (mn, mx)) (Some v) =
     Some (if mn > v then v else mn, if mx < v then v else mx)"

definition extent :: "int option list \<Rightarrow> (int \<times> int) option" where
  "extent vs = foldl extentStep None vs"

text \<open>\<open>d3.max(values)\<close>: the greatest value, \<open>undefined\<close> for no value.\<close>

fun maxStep :: "nat option \<Rightarrow> nat \<Rightarrow> nat option" where
  "maxStep None v = Some v"
| "maxStep (Some m) v = Some (if m < v then v else m)"

definition d3max :: "nat list \<Rightarrow> nat option" where
  "d3max vs = foldl maxStep None vs"

text \<open>\<open>new Map(pairs)\<close>: the pairs are set in order, a later one replacing an earlier.\<close>

fun mapSet :: "('k \<rightharpoonup> 'v) \<Rightarrow> 'k \<times> 'v \<Rightarrow> ('k \<rightharpoonup> 'v)" where
  "mapSet m (k, v) = m(k \<mapsto> v)"

definition newMap :: "('k \<times> 'v) list \<Rightarrow> ('k \<rightharpoonup> 'v)" where
  "newMap ps = foldl mapSet Map.empty ps"

section \<open>The daily and cumulative chart (GamesPlayed.vue)\<close>

text \<open>
  \<open>type DailyCount = { day: number; count: number }\<close> and
  \<open>type Cumulative = { day: number; total: number }\<close>. The field \<open>day\<close> is the result
  of \<open>dateToDay.get(...)\<close>, which is \<open>undefined\<close> (\<open>None\<close>) for a missing key.
\<close>

record DailyCount =
  day :: "nat option"
  count :: nat

record Cumulative =
  cum_day :: "nat option"
  total :: nat

text \<open>
  The builder computes with the time values of the dates, in the time zone
  \<open>tz\<close> of the browser.

  \<^verbatim>\<open>const [minDate, maxDate] = d3.extent(rawData, d => d.Date);
for (let dt = new Date(minDate); dt <= maxDate; dt.setDate(dt.getDate() + 1))
  dates.push(new Date(dt));\<close>

  The loop compares and pushes time values; \<open>ds\<close> is the array \<open>dates\<close> so far.
  Whether the loop ends depends on the zone, so the result is an option, \<open>None\<close>
  for a loop that does not end. With no valid date, \<open>new Date(undefined)\<close> is
  invalid, the test fails at once and \<open>dates\<close> is empty.
\<close>

partial_function (option) dateLoop :: "TimeZone \<Rightarrow> int \<Rightarrow> int \<Rightarrow> int list \<Rightarrow> int list option" where
  "dateLoop tz dt maxDate ds =
     (if dt \<le> maxDate
      then dateLoop tz (setDate tz dt (getDate (Day (LocalTime tz dt)) + 1)) maxDate (ds @ [dt])
      else Some ds)"

declare dateLoop.simps [code]

definition dates :: "TimeZone \<Rightarrow> Entry list \<Rightarrow> int list option" where
  "dates tz rawData =
     (case extent (map (\<lambda>d. map_option (timeValue tz) (Date d)) rawData) of
        None \<Rightarrow> Some []
      | Some (minDate, maxDate) \<Rightarrow> dateLoop tz minDate maxDate [])"

text \<open>\<^verbatim>\<open>new Map(dates.map((d, i) => [d.getTime(), i + 1]))\<close>\<close>

definition dateToDay :: "int list \<Rightarrow> (int \<rightharpoonup> nat)" where
  "dateToDay ds = newMap (map (\<lambda>(d, i). (d, i + 1)) (zip ds [0..<length ds]))"

text \<open>
  \<^verbatim>\<open>rawData.filter(r => r.Date.getTime() === d.getTime())\<close>: reading \<open>getTime\<close> of a
  \<open>null\<close> date raises.
\<close>

fun filterByTime :: "TimeZone \<Rightarrow> Entry list \<Rightarrow> int \<Rightarrow> error + Entry list" where
  "filterByTime tz [] t = Inr []"
| "filterByTime tz (r # rs) t =
     (case Date r of
        None \<Rightarrow> Inl TypeError
      | Some rd \<Rightarrow>
          (case filterByTime tz rs t of
             Inl e \<Rightarrow> Inl e
           | Inr ks \<Rightarrow> Inr (if timeValue tz rd = t then r # ks else ks)))"

text \<open>
  \<^verbatim>\<open>dates.map(d => ({ day: dateToDay.get(d.getTime())!,
  count: rawData.filter(r => r.Date.getTime() === d.getTime()).length }))\<close>
\<close>

fun dailyFrom ::
  "TimeZone \<Rightarrow> (int \<rightharpoonup> nat) \<Rightarrow> Entry list \<Rightarrow> int list \<Rightarrow> error + DailyCount list" where
  "dailyFrom tz m rawData [] = Inr []"
| "dailyFrom tz m rawData (d # ds) =
     (case filterByTime tz rawData d of
        Inl e \<Rightarrow> Inl e
      | Inr ks \<Rightarrow>
          (case dailyFrom tz m rawData ds of
             Inl e \<Rightarrow> Inl e
           | Inr bs \<Rightarrow> Inr (\<lparr>day = m d, count = length ks\<rparr> # bs)))"

definition dailyCounts :: "TimeZone \<Rightarrow> Entry list \<Rightarrow> (error + DailyCount list) option" where
  "dailyCounts tz rawData =
     map_option (\<lambda>ds. dailyFrom tz (dateToDay ds) rawData ds) (dates tz rawData)"

text \<open>
  \<^verbatim>\<open>let running = 0;
const cumulative = dailyCounts.map(d => {
  running += d.count;
  return { day: d.day, total: running };
});\<close>
\<close>

fun cumulativeFrom :: "nat \<Rightarrow> DailyCount list \<Rightarrow> Cumulative list" where
  "cumulativeFrom running [] = []"
| "cumulativeFrom running (d # ds) =
     (let running' = running + count d
      in \<lparr>cum_day = day d, total = running'\<rparr> # cumulativeFrom running' ds)"

definition cumulative :: "DailyCount list \<Rightarrow> Cumulative list" where
  "cumulative dcs = cumulativeFrom 0 dcs"

section \<open>The animated chart (the component with the \<open>dataFile\<close> property)\<close>

text \<open>
  The animated variant guards the computation by \<open>rawData.length > 0\<close> and falls
  back to fixed arrays and fixed scale maxima; \<open>None\<close> is, as for \<open>dailyCounts\<close>, a
  date loop that does not end:

  \<^verbatim>\<open>dailyCounts = Array.from({ length: 30 }, (_, i) => ({ day: i + 1, count: 0 }));
cumulative = dailyCounts.map(d => ({ day: d.day, total: 0 }));
const yBarMax = rawData.length > 0 ? d3.max(dailyCounts, d => d.count)! : 10;
const yLineMax = rawData.length > 0 ? d3.max(cumulative, d => d.total)! : 10;\<close>
\<close>

record ChartData =
  cd_dailyCounts :: "DailyCount list"
  cd_cumulative :: "Cumulative list"
  yBarMax :: "nat option"
  yLineMax :: "nat option"

definition fallbackDaily :: "DailyCount list" where
  "fallbackDaily = map (\<lambda>i. \<lparr>day = Some (i + 1), count = 0\<rparr>) [0..<30]"

definition fallbackCumulative :: "Cumulative list" where
  "fallbackCumulative = map (\<lambda>d. \<lparr>cum_day = day d, total = 0\<rparr>) fallbackDaily"

definition chartData :: "TimeZone \<Rightarrow> Entry list \<Rightarrow> (error + ChartData) option" where
  "chartData tz rawData =
     (if length rawData > 0 then
        (case dailyCounts tz rawData of
           None \<Rightarrow> None
         | Some (Inl e) \<Rightarrow> Some (Inl e)
         | Some (Inr dcs) \<Rightarrow>
             Some (Inr \<lparr>cd_dailyCounts = dcs, cd_cumulative = cumulative dcs,
                        yBarMax = d3max (map count dcs),
                        yLineMax = d3max (map total (cumulative dcs))\<rparr>))
      else
        Some (Inr \<lparr>cd_dailyCounts = fallbackDaily, cd_cumulative = fallbackCumulative,
                   yBarMax = Some 10, yLineMax = Some 10\<rparr>))"

section \<open>The normalizer\<close>

text \<open>
  \<open>d3.timeParse('%m/%d/%Y')\<close>, as d3-time-format implements it: each number is
  read, as optional white space followed by digits, from a slice of the text of
  at most two (month, day) or four (year) characters; the two slashes must match;
  the text must end after the year; any failure gives \<open>null\<close>. Numbers are not range-checked: the
  date is built by \<open>new Date(y, m - 1, d)\<close>, which carries an overflow into the next
  month, and a year from 0 to 99 is kept as written by \<open>setFullYear\<close> on a date of
  the year -1. A text is a list of characters below 256 here; the white space
  that \<open>\s\<close> matches among them is the ASCII white space and the no-break space
  U+00A0.

  The theorems on the normalizer hold for every parser; this one gives them
  concrete inputs.
\<close>

definition isSpace :: "char \<Rightarrow> bool" where
  "isSpace c =
     (c \<in> set [CHR '' '', CHR 0x09, CHR 0x0A, CHR 0x0B, CHR 0x0C, CHR 0x0D, CHR 0xA0])"

definition isDigit :: "char \<Rightarrow> bool" where
  "isDigit c = (c \<in> set ''0123456789'')"

definition numberValue :: "string \<Rightarrow> int" where
  "numberValue ds = foldl (\<lambda>n c. 10 * n + (of_char c - 48)) 0 ds"

definition parseNumber :: "nat \<Rightarrow> string \<Rightarrow> (int \<times> string) option" where
  "parseNumber w s =
     (let slice = take w s;
          sp = takeWhile isSpace slice;
          ds = takeWhile isDigit (dropWhile isSpace slice)
      in if ds = [] then None else Some (numberValue ds, drop (length sp + length ds) s))"

fun parseLiteral :: "char \<Rightarrow> string \<Rightarrow> string option" where
  "parseLiteral c [] = None"
| "parseLiteral c (x # s) = (if x = c then Some s else None)"

definition setFullYear :: "int \<Rightarrow> int \<Rightarrow> int" where
  "setFullYear t y = MakeDay y (MonthFromTime t) (DateFromTime t)"

definition localDate :: "int \<Rightarrow> int \<Rightarrow> int \<Rightarrow> int" where
  "localDate y m d =
     (if 0 \<le> y \<and> y < 100 then setFullYear (newDate (- 1) m d) y else newDate y m d)"

definition timeParse :: "string \<Rightarrow> int option" where
  "timeParse s =
     Option.bind (parseNumber 2 s) (\<lambda>(m, s1).
     Option.bind (parseLiteral CHR ''/'' s1) (\<lambda>s2.
     Option.bind (parseNumber 2 s2) (\<lambda>(d, s3).
     Option.bind (parseLiteral CHR ''/'' s3) (\<lambda>s4.
     Option.bind (parseNumber 4 s4) (\<lambda>(y, s5).
       if s5 \<noteq> [] then None else Some (localDate y (m - 1) d))))))"

text \<open>
  A row as \<open>d3.csv\<close> delivers it has the text of the columns \<open>Date\<close>, \<open>Person\<close> and
  \<open>Game\<close>. Every loader maps each row to one entry:

  \<^verbatim>\<open>d => ({ Date: parseDate(d.Date as string)!, Person: d.Person as string,
  Game: d.Game as string })\<close>

  (as the row function of \<open>d3.csv\<close> in GamesPlayed.vue and in the animated chart,
  with \<open>raw.map\<close> in the calendar and the leaderboards). The row function never
  returns \<open>null\<close>, so \<open>d3.csv\<close> skips no row.
\<close>

record RawRow =
  raw_Date :: string
  raw_Person :: string
  raw_Game :: string

definition normalize :: "(string \<Rightarrow> int option) \<Rightarrow> RawRow list \<Rightarrow> Entry list" where
  "normalize parseDate raw =
     map (\<lambda>d. \<lparr>Date = parseDate (raw_Date d), Person = raw_Person d, Game = raw_Game d\<rparr>) raw"

section \<open>The leaderboards\<close>

text \<open>
  A JavaScript \<open>Set\<close> keeps its members in insertion order and ignores a member it
  already has; it is modelled by the list of its members in that order.
  \<open>Array.prototype.sort\<close> is stable; \<open>sortBy\<close> is the stable insertion sort, which
  moves an element past another only when the comparator is positive.
\<close>

fun setAdd :: "'a list \<Rightarrow> 'a \<Rightarrow> 'a list" where
  "setAdd s x = (if x \<in> set s then s else s @ [x])"

definition newSet :: "'a list \<Rightarrow> 'a list" where
  "newSet xs = foldl setAdd [] xs"

fun insertBy :: "('a \<Rightarrow> 'a \<Rightarrow> int) \<Rightarrow> 'a \<Rightarrow> 'a list \<Rightarrow> 'a list" where
  "insertBy cmp x [] = [x]"
| "insertBy cmp x (y # ys) = (if cmp x y > 0 then y # insertBy cmp x ys else x # y # ys)"

definition sortBy :: "('a \<Rightarrow> 'a \<Rightarrow> int) \<Rightarrow> 'a list \<Rightarrow> 'a list" where
  "sortBy cmp xs = foldr (insertBy cmp) xs []"

text \<open>
  The rows \<open>{ player, value }\<close> of both leaderboards, and the computation of
  \<open>onMounted\<close>:

  \<^verbatim>\<open>const players = Array.from(new Set(entries.map(e => e.Person)));
const totals = players.map(player => ({ player,
  value: entries.filter(e => e.Person === player).length }));
const daysSet = entries.reduce((map, e) => {
  const key = e.Person;
  const dt = e.Date.toDateString();
  if (!map.has(key)) map.set(key, new Set<string>());
  map.get(key)!.add(dt);
  return map;
}, new Map<string, Set<string>>());
const daysPlayed = players.map(player => ({ player,
  value: daysSet.get(player)!.size }));
totals.sort((a, b) => b.value - a.value);
daysPlayed.sort((a, b) => b.value - a.value);\<close>

  \<open>toDateString()\<close> prints the local day, month and year, a different text for
  every calendar day; the day number stands for that text. On a \<open>null\<close> date it
  raises. \<open>onMounted\<close> returns before all this when there is no entry.
\<close>

record PlayerValue =
  player :: string
  pvalue :: nat

definition players :: "Entry list \<Rightarrow> string list" where
  "players entries = newSet (map Person entries)"

definition totals :: "Entry list \<Rightarrow> PlayerValue list" where
  "totals entries =
     map (\<lambda>p. \<lparr>player = p, pvalue = length (filter (\<lambda>e. Person e = p) entries)\<rparr>)
       (players entries)"

fun daysStep :: "(string \<rightharpoonup> int list) \<Rightarrow> Entry \<Rightarrow> error + (string \<rightharpoonup> int list)" where
  "daysStep m e =
     (case Date e of
        None \<Rightarrow> Inl TypeError
      | Some dt \<Rightarrow>
          (let m' = (if m (Person e) = None then m(Person e \<mapsto> []) else m)
           in case m' (Person e) of
                None \<Rightarrow> Inl TypeError
              | Some s \<Rightarrow> Inr (m'(Person e \<mapsto> setAdd s dt))))"

fun daysSetFrom :: "(string \<rightharpoonup> int list) \<Rightarrow> Entry list \<Rightarrow> error + (string \<rightharpoonup> int list)" where
  "daysSetFrom m [] = Inr m"
| "daysSetFrom m (e # es) =
     (case daysStep m e of Inl x \<Rightarrow> Inl x | Inr m' \<Rightarrow> daysSetFrom m' es)"

definition daysSet :: "Entry list \<Rightarrow> error + (string \<rightharpoonup> int list)" where
  "daysSet entries = daysSetFrom Map.empty entries"

fun daysPlayedFrom :: "(string \<rightharpoonup> int list) \<Rightarrow> string list \<Rightarrow> error + PlayerValue list" where
  "daysPlayedFrom m [] = Inr []"
| "daysPlayedFrom m (p # ps) =
     (case m p of
        None \<Rightarrow> Inl TypeError
      | Some s \<Rightarrow>
          (case daysPlayedFrom m ps of
             Inl x \<Rightarrow> Inl x
           | Inr rs \<Rightarrow> Inr (\<lparr>player = p, pvalue = length s\<rparr> # rs)))"

definition byValueDesc :: "PlayerValue \<Rightarrow> PlayerValue \<Rightarrow> int" where
  "byValueDesc a b = int (pvalue b) - int (pvalue a)"

definition leaderboards :: "Entry list \<Rightarrow> error + (PlayerValue list \<times> PlayerValue list) option" where
  "leaderboards entries =
     (if entries = [] then Inr None
      else
        (case daysSet entries of
           Inl x \<Rightarrow> Inl x
         | Inr m \<Rightarrow>
             (case daysPlayedFrom m (players entries) of
                Inl x \<Rightarrow> Inl x
              | Inr daysPlayed \<Rightarrow>
                  Inr (Some (sortBy byValueDesc (totals entries),
                             sortBy byValueDesc daysPlayed)))))"

text \<open>
  Two notions the claim on the leaderboard is stated with: the position of the
  first entry of a participant, and the number of distinct days on which a
  participant has an entry.
\<close>

definition firstSeenAt :: "Entry list \<Rightarrow> string \<Rightarrow> nat" where
  "firstSeenAt entries p = length (takeWhile (\<lambda>e. Person e \<noteq> p) entries)"

definition distinctDays :: "Entry list \<Rightarrow> string \<Rightarrow> nat" where
  "distinctDays entries p = card {t. \<exists>e\<in>set entries. Person e = p \<and> Date e = Some t}"

section \<open>The calendar (GamesCalendar.vue)\<close>

text \<open>
  \<open>d3.rollup(entries, v => v.length, key)\<close> groups the entries by key and maps every
  group to its size. The result is a \<open>Map\<close> whose keys are in first-seen order; it
  is modelled by the list of its pairs.
\<close>

fun rollupAdd :: "('k \<times> nat) list \<Rightarrow> 'k \<Rightarrow> ('k \<times> nat) list" where
  "rollupAdd [] k = [(k, 1)]"
| "rollupAdd ((k', n) # r) k = (if k' = k then (k', n + 1) # r else (k', n) # rollupAdd r k)"

definition rollupCount :: "'k list \<Rightarrow> ('k \<times> nat) list" where
  "rollupCount ks = foldl rollupAdd [] ks"

text \<open>The keys \<open>d.Date.getTime()\<close> of the entries; a \<open>null\<close> date raises.\<close>

fun getTimes :: "Entry list \<Rightarrow> error + int list" where
  "getTimes [] = Inr []"
| "getTimes (e # es) =
     (case Date e of
        None \<Rightarrow> Inl TypeError
      | Some t \<Rightarrow> (case getTimes es of Inl x \<Rightarrow> Inl x | Inr ts \<Rightarrow> Inr (t # ts)))"

record CalendarCell =
  cell_day :: int
  row :: int
  col :: int
  cell_count :: nat

text \<open>
  The body of the loop \<open>for (let day = 1; day <= daysInMonth; day++)\<close>:

  \<^verbatim>\<open>const slot = startDay + (day - 1);
const row = Math.floor(slot / cols);
const col = slot % cols;
const dateObj = new Date(year, month, day);
const ts = dateObj.getTime();
const cnt = counts.get(ts) || 0;\<close>

  with \<open>cols = 7\<close>; the variable \<open>day\<close> is \<open>d\<close> here. The slot is never negative, so
  \<open>%\<close> is \<open>mod\<close>.
\<close>

definition cellAt :: "(int \<times> nat) list \<Rightarrow> int \<Rightarrow> int \<Rightarrow> int \<Rightarrow> int \<Rightarrow> CalendarCell" where
  "cellAt counts year month startDay d =
     (let slot = startDay + (d - 1);
          ts = newDate year month d
      in \<lparr>cell_day = d, row = slot div 7, col = slot mod 7,
           cell_count = (case map_of counts ts of None \<Rightarrow> 0 | Some c \<Rightarrow> c)\<rparr>)"

text \<open>The loop itself, from the day \<open>d\<close> on.\<close>

function cellsFrom ::
  "(int \<times> nat) list \<Rightarrow> int \<Rightarrow> int \<Rightarrow> int \<Rightarrow> int \<Rightarrow> int \<Rightarrow> CalendarCell list" where
  "cellsFrom counts year month startDay daysInMonth d =
     (if d \<le> daysInMonth
      then cellAt counts year month startDay d
           # cellsFrom counts year month startDay daysInMonth (d + 1)
      else [])"
  by pat_completeness auto
termination
  by (relation "measure (\<lambda>(counts, year, month, startDay, daysInMonth, d).
        nat (daysInMonth + 1 - d))") auto

declare cellsFrom.simps [simp del]

record CalendarLayout =
  cal_year :: int
  cal_month :: int
  cal_daysInMonth :: int
  cal_startDay :: int
  cal_rows :: int
  cal_maxCount :: nat
  cal_cells :: "CalendarCell list"

text \<open>
  \<open>drawCalendar(entries)\<close>. \<open>None\<close> is the "No data" text drawn for no entry.

  \<^verbatim>\<open>const counts = d3.rollup(entries, v => v.length, d => d.Date.getTime());
const first = entries[0].Date;
const year = first.getFullYear();
const month = first.getMonth();
const cal_daysInMonth = new Date(year, month + 1, 0).getDate();
const cal_startDay = new Date(year, month, 1).getDay();
const cols = 7;
const totalSlots = startDay + daysInMonth;
const cal_rows = Math.ceil(totalSlots / cols);
const cal_maxCount = d3.max(Array.from(counts.values())) || 1;\<close>
\<close>

definition drawCalendar :: "Entry list \<Rightarrow> error + CalendarLayout option" where
  "drawCalendar entries =
     (case entries of
        [] \<Rightarrow> Inr None
      | e0 # _ \<Rightarrow>
          (case getTimes entries of
             Inl x \<Rightarrow> Inl x
           | Inr ks \<Rightarrow>
               (case Date e0 of
                  None \<Rightarrow> Inl TypeError
                | Some first \<Rightarrow>
                    (let counts = rollupCount ks;
                         year = getFullYear first;
                         month = getMonth first;
                         daysInMonth = getDate (newDate year (month + 1) 0);
                         startDay = getDay (newDate year month 1);
                         totalSlots = startDay + daysInMonth
                     in Inr (Some
                          \<lparr>cal_year = year, cal_month = month,
                           cal_daysInMonth = daysInMonth, cal_startDay = startDay,
                           cal_rows = - ((- totalSlots) div 7),
                           cal_maxCount = (case d3max (map snd counts) of
                                         None \<Rightarrow> 1
                                       | Some m \<Rightarrow> if m = 0 then 1 else m),
                           cal_cells =
                             cellsFrom counts year month startDay daysInMonth 1\<rparr>)))))"

text \<open>The year and month the calendar displays, when it displays one.\<close>

definition displayedMonth :: "Entry list \<Rightarrow> (int \<times> int) option" where
  "displayedMonth entries =
     (case drawCalendar entries of
        Inr (Some l) \<Rightarrow> Some (cal_year l, cal_month l)
      | _ \<Rightarrow> None)"

section \<open>The breakdown chart (GamesBreakdown.vue)\<close>

text \<open>
  Angles are real numbers here: the rounding of the floating-point arithmetic of
  JavaScript is not modelled.

  \<^verbatim>\<open>const counts = d3.rollup(dataArray, v => v.length, d => d.Game);
const data = Array.from(counts, ([key, value]) => ({ key, value }));
const total = d3.sum(data, d => d.value);
const pie = d3.pie().sort(null).value(d => d.value);
const arcs = pie(data);\<close>

  \<open>d3.pie\<close>, as d3-shape implements it, with the start angle 0, the end angle
  \<open>2\<pi>\<close> and the pad angle 0 of its defaults: \<open>sort(null)\<close> switches off both the
  sorting by value and the sorting by a comparator, so the arcs are computed in
  the order of the data, each starting where the one before ended.
\<close>

record AggregatedCount =
  key :: string
  gvalue :: nat

record PieArc =
  arc_data :: AggregatedCount
  arc_index :: nat
  arc_value :: real
  startAngle :: real
  endAngle :: real
  padAngle :: real

definition tau :: real where
  "tau = 2 * pi"

fun arcsFrom :: "real \<Rightarrow> real \<Rightarrow> real \<Rightarrow> nat \<Rightarrow> real \<Rightarrow> AggregatedCount list \<Rightarrow> PieArc list" where
  "arcsFrom k pa p i a0 [] = []"
| "arcsFrom k pa p i a0 (d # ds) =
     (let v = real (gvalue d);
          a1 = a0 + (if v > 0 then v * k else 0) + pa
      in \<lparr>arc_data = d, arc_index = i, arc_value = v,
           startAngle = a0, endAngle = a1, padAngle = p\<rparr>
         # arcsFrom k pa p (i + 1) a1 ds)"

definition pie :: "AggregatedCount list \<Rightarrow> PieArc list" where
  "pie dat =
     (let n = real (length dat);
          a0 = 0;
          da = min tau (max (- tau) (tau - a0));
          p = min (\<bar>da\<bar> / n) 0;
          pa = p * (if da < 0 then - 1 else 1);
          sum = sum_list (map (\<lambda>d. if real (gvalue d) > 0 then real (gvalue d) else 0) dat);
          k = (if sum \<noteq> 0 then (da - n * pa) / sum else 0)
      in arcsFrom k pa p 0 a0 dat)"

record PieChart =
  pc_data :: "AggregatedCount list"
  pc_total :: nat
  pc_arcs :: "PieArc list"

text \<open>\<open>drawChart(dataArray)\<close>, on the \<open>Game\<close> fields of the rows; \<open>None\<close> is the "No data" text.\<close>

definition drawChart :: "string list \<Rightarrow> PieChart option" where
  "drawChart dataArray =
     (if dataArray = [] then None
      else
        (let counts = rollupCount dataArray;
             dat = map (\<lambda>(k, v). \<lparr>key = k, gvalue = v\<rparr>) counts
         in Some \<lparr>pc_data = dat, pc_total = sum_list (map gvalue dat), pc_arcs = pie dat\<rparr>))"

section \<open>The hover resolver (GamesPlayed.vue and the animated chart)\<close>

text \<open>
  Positions are doubles, and every operation on them rounds.

  \<^verbatim>\<open>const x = d3.scaleBand<number>()
  .domain(dailyCounts.map(d => d.day)).range([0, width]).padding(0.1);\<close>

  where \<open>width\<close> is 680 in GamesPlayed.vue, 760 in the animated chart and 820 in
  the copy of the chart in GamesCalendar.vue.
  \<open>d3.scaleBand\<close>, as d3-scale implements it: the domain keeps the first of equal
  values; \<open>padding(0.1)\<close> sets the outer padding to the double nearest to 0.1 and the
  inner padding to the lesser of 1 and that; the alignment is 0.5; the scale does
  not round to integers. A value outside the domain has no position.

  \<^verbatim>\<open>function rescale() {
  var n = domain().length, reverse = r1 < r0,
      start = reverse ? r1 : r0, stop = reverse ? r0 : r1;
  step = (stop - start) / Math.max(1, n - paddingInner + paddingOuter * 2);
  if (round) step = Math.floor(step);
  start += (stop - start - step * (n - paddingInner)) * align;
  bandwidth = step * (1 - paddingInner);
  if (round) start = Math.round(start), bandwidth = Math.round(bandwidth);
  var values = sequence(n).map(function(i) { return start + step * i; });
  return ordinalRange(reverse ? values.reverse() : values);
}\<close>

  with \<open>r0 = 0\<close> and \<open>r1 = width\<close>.
\<close>

definition paddingOuter :: rat where
  "paddingOuter = fl (1 / 10)"

definition paddingInner :: rat where
  "paddingInner = min 1 paddingOuter"

definition align :: rat where
  "align = 1 / 2"

definition bandStep :: "nat \<Rightarrow> rat \<Rightarrow> rat" where
  "bandStep n width =
     (let r0 = 0; r1 = width; reverse = r1 < r0;
          start = (if reverse then r1 else r0); stop = (if reverse then r0 else r1)
      in fl (fl (stop - start)
             / max 1 (fl (fl (of_nat n - paddingInner) + fl (paddingOuter * 2)))))"

definition bandStart :: "nat \<Rightarrow> rat \<Rightarrow> rat" where
  "bandStart n width =
     (let r0 = 0; r1 = width; reverse = r1 < r0;
          start = (if reverse then r1 else r0); stop = (if reverse then r0 else r1)
      in fl (start + fl (fl (fl (stop - start)
                            - fl (bandStep n width * fl (of_nat n - paddingInner))) * align)))"

definition bandwidth :: "nat \<Rightarrow> rat \<Rightarrow> rat" where
  "bandwidth n width = fl (bandStep n width * fl (1 - paddingInner))"

fun indexOf :: "'a list \<Rightarrow> 'a \<Rightarrow> nat option" where
  "indexOf [] v = None"
| "indexOf (u # us) v = (if u = v then Some 0 else map_option Suc (indexOf us v))"

text \<open>
  The position of a value of the domain: the value at its index in \<open>values\<close>, or
  in the reversed \<open>values\<close> when the range descends.
\<close>

definition scaleBand :: "'a list \<Rightarrow> rat \<Rightarrow> 'a \<Rightarrow> rat option" where
  "scaleBand vs width v =
     (let domain = newSet vs; n = length domain; reverse = width < 0
      in map_option
           (\<lambda>i. let j = (if reverse then n - 1 - i else i)
                 in fl (bandStart n width + fl (bandStep n width * of_nat j)))
           (indexOf domain v))"

text \<open>
  \<^verbatim>\<open>const xCenters = dailyCounts.map(d => x(d.day)! + x.bandwidth() / 2);\<close>

  Every day of \<open>dailyCounts\<close> is in the domain, so every position is defined
  (lemma \<open>xCenters_defined\<close>); \<open>None\<close> stands for the \<open>NaN\<close> that an undefined position
  would give.
\<close>

definition xCenters :: "rat \<Rightarrow> DailyCount list \<Rightarrow> rat list option" where
  "xCenters width dcs =
     those (map (\<lambda>d. map_option
                        (\<lambda>xd. fl (xd + fl (bandwidth (length (newSet (map day dcs))) width / 2)))
                        (scaleBand (map day dcs) width (day d))) dcs)"

text \<open>
  \<open>d3.bisector((d: number) => d).center\<close>, as d3-array implements it:

  \<^verbatim>\<open>function left(a, x, lo = 0, hi = a.length) {
  if (lo < hi) {
    if (compare1(x, x) !== 0) return hi;
    do {
      const mid = (lo + hi) >>> 1;
      if (compare2(a[mid], x) < 0) lo = mid + 1;
      else hi = mid;
    } while (lo < hi);
  }
  return lo;
}
function center(a, x, lo = 0, hi = a.length) {
  const i = left(a, x, lo, hi - 1);
  return i > lo && delta(a[i - 1], x) > -delta(a[i], x) ? i - 1 : i;
}\<close>

  with \<open>compare2(d, x) = ascending(d, x)\<close>, negative exactly when \<open>d < x\<close>, and
  \<open>delta(d, x) = d - x\<close>, a subtraction of doubles. The test
  \<open>compare1(x, x) !== 0\<close> is for a pointer offset that is not a number. An element
  read beyond the array is \<open>undefined\<close>, which is not less than \<open>x\<close>. The shift
  \<open>>>> 1\<close> halves, and for the empty array \<open>hi - 1\<close> is negative and \<open>left\<close> returns
  \<open>lo = 0\<close>, as it does here for \<open>hi = 0\<close>.
\<close>

function bisectLeft :: "rat list \<Rightarrow> rat \<Rightarrow> nat \<Rightarrow> nat \<Rightarrow> nat" where
  "bisectLeft a x lo hi =
     (if lo < hi then
        (let mid = (lo + hi) div 2
         in if mid < length a \<and> a ! mid < x then bisectLeft a x (mid + 1) hi
            else bisectLeft a x lo mid)
      else lo)"
  by pat_completeness auto
termination
  by (relation "measure (\<lambda>(a, x, lo, hi). hi - lo)") auto

declare bisectLeft.simps [simp del]

definition bisectCenter :: "rat list \<Rightarrow> rat \<Rightarrow> nat" where
  "bisectCenter a x =
     (let i = bisectLeft a x 0 (length a - 1)
      in if i > 0 \<and> fl (a ! (i - 1) - x) > - fl (a ! i - x) then i - 1 else i)"

text \<open>\<open>idx\<close> of the \<open>mousemove\<close> handler, for the pointer offset \<open>mx\<close>.\<close>

definition hoverIndex :: "rat \<Rightarrow> DailyCount list \<Rightarrow> rat \<Rightarrow> nat option" where
  "hoverIndex width dcs mx = map_option (\<lambda>cs. bisectCenter cs mx) (xCenters width dcs)"

section \<open>Notions of the proofs\<close>

text \<open>
  The invariant of the loop that collects the days of each participant, after
  the entries \<open>es\<close>: a participant has a set exactly when one of the entries is
  theirs, and the set lists, once each, the days of their entries.
\<close>

definition daysInv :: "Entry list \<Rightarrow> (string \<rightharpoonup> int list) \<Rightarrow> bool" where
  "daysInv es m =
     ((\<forall>p. m p = None \<longrightarrow> p \<notin> Person ` set es) \<and>
      (\<forall>p s. m p = Some s \<longrightarrow>
         distinct s \<and> set s = {t. \<exists>e\<in>set es. Person e = p \<and> Date e = Some t}))"

text \<open>The band center of the day at position \<open>i\<close> of \<open>n\<close> days, on an ascending range.\<close>

definition bandCenter :: "nat \<Rightarrow> rat \<Rightarrow> nat \<Rightarrow> rat" where
  "bandCenter n width i =
     fl (fl (bandStart n width + fl (bandStep n width * of_nat i)) + fl (bandwidth n width / 2))"

section \<open>Properties of the calendar arithmetic\<close>

text \<open>
  \<open>YearFromTime\<close> finds the year of a day, and \<open>MakeDay\<close> and the three field
  functions are inverse to each other on the days of a month.
\<close>

lemma DayFromYear_1970: "DayFromYear 1970 = 0"
  by (simp add: DayFromYear_def)

lemma DayFromYear_lower_up: "1970 \<le> y \<Longrightarrow> 365 * (y - 1970) \<le> DayFromYear y"
proof (induction y rule: int_ge_induct)
  case base
  show ?case by (simp add: DayFromYear_1970)
next
  case (step i)
  then show ?case using DayFromYear_Suc [of i] DaysInYear_bounds [of i] by simp
qed

lemma DayFromYear_lower_down: "y \<le> 1970 \<Longrightarrow> 366 * (y - 1970) \<le> DayFromYear y"
proof (induction y rule: int_le_induct)
  case base
  show ?case by (simp add: DayFromYear_1970)
next
  case (step i)
  then show ?case using DayFromYear_pred [of i] DaysInYear_bounds [of "i - 1"] by simp
qed

lemma DayFromYear_mono: "y \<le> y' \<Longrightarrow> DayFromYear y \<le> DayFromYear y'"
proof (induction y' rule: int_ge_induct)
  case base
  show ?case by simp
next
  case (step i)
  then show ?case using DayFromYear_Suc [of i] DaysInYear_bounds [of i] by simp
qed

lemma yearSearch_spec:
  "t < DayFromYear (y + 1) \<Longrightarrow>
     DayFromYear (yearSearch y t) \<le> t \<and> t < DayFromYear (yearSearch y t + 1)"
proof (induction y t rule: yearSearch.induct)
  case (1 y t)
  show ?case
  proof (cases "t < DayFromYear y")
    case True
    then have "yearSearch y t = yearSearch (y - 1) t" by (simp add: yearSearch.simps [of y t])
    moreover have "DayFromYear (yearSearch (y - 1) t) \<le> t
        \<and> t < DayFromYear (yearSearch (y - 1) t + 1)"
      using "1.IH" [OF True] True by simp
    ultimately show ?thesis by simp
  next
    case False
    then have "yearSearch y t = y" by (simp add: yearSearch.simps [of y t])
    with False "1.prems" show ?thesis by simp
  qed
qed

lemma year_estimate: "t < DayFromYear (1970 + (if 0 \<le> t then t div 365 else t div 366) + 1)"
proof (cases "0 \<le> t")
  case True
  have "0 \<le> t div 365" using True by simp
  then have "365 * (t div 365 + 1) \<le> DayFromYear (1970 + t div 365 + 1)"
    using DayFromYear_lower_up [of "1970 + t div 365 + 1"] by simp
  moreover have "t < 365 * (t div 365 + 1)"
    using pos_mod_bound [of 365 t] mult_div_mod_eq [of 365 t] by simp
  ultimately show ?thesis using True by simp
next
  case False
  then have "t div 366 < 0" by simp
  then have "366 * (t div 366 + 1) \<le> DayFromYear (1970 + t div 366 + 1)"
    using DayFromYear_lower_down [of "1970 + t div 366 + 1"] by simp
  moreover have "t < 366 * (t div 366 + 1)"
    using pos_mod_bound [of 366 t] mult_div_mod_eq [of 366 t] by simp
  ultimately show ?thesis using False by simp
qed

lemma YearFromTime_spec:
  "DayFromYear (YearFromTime t) \<le> t \<and> t < DayFromYear (YearFromTime t + 1)"
  unfolding YearFromTime_def by (rule yearSearch_spec [OF year_estimate])

lemma YearFromTime_unique:
  assumes "DayFromYear y \<le> t" and "t < DayFromYear (y + 1)"
  shows "YearFromTime t = y"
proof (rule ccontr)
  assume ne: "YearFromTime t \<noteq> y"
  let ?Y = "YearFromTime t"
  from YearFromTime_spec [of t] have s: "DayFromYear ?Y \<le> t" "t < DayFromYear (?Y + 1)"
    by simp_all
  from ne consider "?Y + 1 \<le> y" | "y + 1 \<le> ?Y" by linarith
  then show False
  proof cases
    case 1
    from DayFromYear_mono [OF 1] s assms show False by simp
  next
    case 2
    from DayFromYear_mono [OF 2] s assms show False by simp
  qed
qed

lemma monthStart_simps:
  "monthStart l 0 = 0" "monthStart l 1 = 31" "monthStart l 2 = (if l then 60 else 59)"
  "monthStart l 3 = (if l then 91 else 90)" "monthStart l 4 = (if l then 121 else 120)"
  "monthStart l 5 = (if l then 152 else 151)" "monthStart l 6 = (if l then 182 else 181)"
  "monthStart l 7 = (if l then 213 else 212)" "monthStart l 8 = (if l then 244 else 243)"
  "monthStart l 9 = (if l then 274 else 273)" "monthStart l 10 = (if l then 305 else 304)"
  "monthStart l 11 = (if l then 335 else 334)" "monthStart l 12 = (if l then 366 else 365)"
  by (simp_all add: monthStart_def)

lemma month_cases:
  "0 \<le> m \<Longrightarrow> m \<le> 11 \<Longrightarrow>
     m = 0 \<or> m = 1 \<or> m = 2 \<or> m = 3 \<or> m = 4 \<or> m = 5 \<or> m = 6 \<or> m = 7 \<or> m = 8
     \<or> m = 9 \<or> m = 10 \<or> m = (11::int)"
  by arith

lemma month_offset:
  assumes m: "0 \<le> m" "m \<le> 11" and d: "1 \<le> d" "d \<le> monthStart l (m + 1) - monthStart l m"
  shows "0 \<le> monthStart l m + d - 1 \<and> monthStart l m + d - 1 < (if l then 366 else 365)
     \<and> monthOf l (monthStart l m + d - 1) = m"
  using month_cases [OF m]
proof (elim disjE)
  assume "m = 0" with d show ?thesis by (cases l) (simp_all add: monthStart_simps monthOf_def)
next
  assume "m = 1" with d show ?thesis by (cases l) (simp_all add: monthStart_simps monthOf_def)
next
  assume "m = 2" with d show ?thesis by (cases l) (simp_all add: monthStart_simps monthOf_def)
next
  assume "m = 3" with d show ?thesis by (cases l) (simp_all add: monthStart_simps monthOf_def)
next
  assume "m = 4" with d show ?thesis by (cases l) (simp_all add: monthStart_simps monthOf_def)
next
  assume "m = 5" with d show ?thesis by (cases l) (simp_all add: monthStart_simps monthOf_def)
next
  assume "m = 6" with d show ?thesis by (cases l) (simp_all add: monthStart_simps monthOf_def)
next
  assume "m = 7" with d show ?thesis by (cases l) (simp_all add: monthStart_simps monthOf_def)
next
  assume "m = 8" with d show ?thesis by (cases l) (simp_all add: monthStart_simps monthOf_def)
next
  assume "m = 9" with d show ?thesis by (cases l) (simp_all add: monthStart_simps monthOf_def)
next
  assume "m = 10" with d show ?thesis by (cases l) (simp_all add: monthStart_simps monthOf_def)
next
  assume "m = 11" with d show ?thesis by (cases l) (simp_all add: monthStart_simps monthOf_def)
qed

lemma monthLength_pos: "0 \<le> m \<Longrightarrow> m \<le> 11 \<Longrightarrow> 1 \<le> monthLength y m"
  using month_cases [of m]
  by (auto simp add: monthLength_def monthStart_simps)

lemma MakeDay_in_month:
  assumes m: "0 \<le> m" "m \<le> 11" and d: "1 \<le> d" "d \<le> monthLength y m"
  shows "YearFromTime (MakeDay y m d) = y \<and> MonthFromTime (MakeDay y m d) = m
     \<and> DateFromTime (MakeDay y m d) = d"
proof -
  let ?l = "InLeapYear y"
  have md: "MakeDay y m d = DayFromYear y + (monthStart ?l m + d - 1)"
    using m by (simp add: MakeDay_def Let_def)
  have d': "d \<le> monthStart ?l (m + 1) - monthStart ?l m"
    using d by (simp add: monthLength_def)
  note off = month_offset [OF m d(1) d']
  have y: "YearFromTime (MakeDay y m d) = y"
    using off by (intro YearFromTime_unique) (simp_all add: md DayFromYear_Suc DaysInYear_def)
  have dwy: "DayWithinYear (MakeDay y m d) = monthStart ?l m + d - 1"
    by (simp add: DayWithinYear_def y) (simp add: md)
  have mo: "MonthFromTime (MakeDay y m d) = m"
    unfolding MonthFromTime_def dwy y using off by simp
  have "DateFromTime (MakeDay y m d) = d"
    unfolding DateFromTime_def dwy y mo by simp
  with y mo show ?thesis by simp
qed

lemma MonthFromTime_range: "0 \<le> MonthFromTime t \<and> MonthFromTime t \<le> 11"
  by (simp add: MonthFromTime_def monthOf_def)

lemma MakeDay_fields: "MakeDay (YearFromTime t) (MonthFromTime t) (DateFromTime t) = t"
  using MonthFromTime_range [of t]
  by (simp add: MakeDay_def Let_def DateFromTime_def DayWithinYear_def)

lemma setDate_next_day:
  "MakeDay (YearFromTime t) (MonthFromTime t) (DateFromTime t + 1) = t + 1"
  using MakeDay_fields [of t] by (simp add: MakeDay_def Let_def)

lemma MakeDay_day_zero:
  assumes "0 \<le> m" "m \<le> 11"
  shows "MakeDay y (m + 1) 0 = MakeDay y m (monthLength y m)"
proof (cases "m = 11")
  case True
  then show ?thesis
    by (simp add: MakeDay_def Let_def monthLength_def monthStart_simps DayFromYear_Suc
        DaysInYear_def)
next
  case False
  with assms have "(m + 1) div 12 = 0" "(m + 1) mod 12 = m + 1" "m div 12 = 0" "m mod 12 = m"
    by simp_all
  then show ?thesis by (simp add: MakeDay_def Let_def monthLength_def)
qed

lemma days_in_month:
  assumes "0 \<le> m" "m \<le> 11"
  shows "DateFromTime (MakeDay y (m + 1) 0) = monthLength y m"
  using MakeDay_in_month [OF assms monthLength_pos [OF assms, of y] order_refl]
  by (simp add: MakeDay_day_zero [OF assms])


section \<open>Properties of the day-bucket builder\<close>

lemma extent_fold:
  "foldl extentStep (Some (a, b)) (map Some ts) = Some (fold min ts a, fold max ts b)"
proof (induction ts arbitrary: a b)
  case Nil
  show ?case by simp
next
  case (Cons t ts)
  have "(if t < a then t else a) = min t a" "(if b < t then t else b) = max t b"
    by (simp_all add: min_def max_def)
  then show ?case using Cons.IH by simp
qed

lemma extent_Min_Max:
  assumes "ts \<noteq> []"
  shows "extent (map Some ts) = Some (Min (set ts), Max (set ts))"
proof -
  from assms obtain t ts' where ts: "ts = t # ts'" by (cases ts) auto
  have "extent (map Some ts) = Some (fold min ts' t, fold max ts' t)"
    by (simp add: extent_def ts extent_fold)
  moreover have "Min (set ts) = fold min ts' t" "Max (set ts) = fold max ts' t"
    unfolding ts by (rule Min.set_eq_fold, rule Max.set_eq_fold)
  ultimately show ?thesis by simp
qed

lemma foldl_mapSet_notin:
  "k \<notin> fst ` set ps \<Longrightarrow> foldl mapSet m0 ps k = m0 k"
  by (induction ps arbitrary: m0) auto

lemma foldl_mapSet_in:
  "distinct (map fst ps) \<Longrightarrow> (k, v) \<in> set ps \<Longrightarrow> foldl mapSet m0 ps k = Some v"
proof (induction ps arbitrary: m0)
  case Nil
  then show ?case by simp
next
  case (Cons p ps)
  show ?case
  proof (cases "p = (k, v)")
    case True
    then have "k \<notin> fst ` set ps" using Cons.prems(1) by auto
    then show ?thesis using True by (simp add: foldl_mapSet_notin)
  next
    case False
    then have "(k, v) \<in> set ps" using Cons.prems(2) by simp
    then show ?thesis using Cons.IH Cons.prems(1) by simp
  qed
qed

lemma newMap_in:
  "distinct (map fst ps) \<Longrightarrow> (k, v) \<in> set ps \<Longrightarrow> newMap ps k = Some v"
  unfolding newMap_def by (rule foldl_mapSet_in)

lemma dateToDay_nth:
  assumes "distinct ds" "i < length ds"
  shows "dateToDay ds (ds ! i) = Some (i + 1)"
proof -
  let ?ps = "map (\<lambda>(d, i). (d, i + 1)) (zip ds [0..<length ds])"
  have "map fst ?ps = ds"
    by (rule nth_equalityI) simp_all
  then have "distinct (map fst ?ps)" using assms(1) by simp
  moreover have "(ds ! i, i + 1) \<in> set ?ps"
  proof -
    have "(ds ! i, i) \<in> set (zip ds [0..<length ds])"
      using assms(2) by (auto simp add: in_set_zip)
    then show ?thesis by force
  qed
  ultimately show ?thesis unfolding dateToDay_def by (rule newMap_in)
qed

lemma sum_list_indicator:
  "distinct ks \<Longrightarrow>
     sum_list (map (\<lambda>k. if a = k then 1 else 0) ks) = (if a \<in> set ks then 1 else (0::nat))"
  by (induction ks) auto

lemma count_partition:
  "distinct ks \<Longrightarrow> \<forall>x\<in>set xs. f x \<in> set ks \<Longrightarrow>
     sum_list (map (\<lambda>k. length (filter (\<lambda>x. f x = k) xs)) ks) = length xs"
proof (induction xs)
  case Nil
  then show ?case by simp
next
  case (Cons x xs)
  have "sum_list (map (\<lambda>k. length (filter (\<lambda>x. f x = k) (x # xs))) ks)
      = sum_list (map (\<lambda>k. (if f x = k then 1 else 0) + length (filter (\<lambda>x. f x = k) xs)) ks)"
    by (intro arg_cong [where f = sum_list] map_cong) auto
  also have "\<dots> = sum_list (map (\<lambda>k. if f x = k then 1 else 0) ks)
                 + sum_list (map (\<lambda>k. length (filter (\<lambda>x. f x = k) xs)) ks)"
    by (simp add: sum_list_addf)
  also have "sum_list (map (\<lambda>k. if f x = k then 1 else 0) ks) = (1::nat)"
    using Cons.prems by (simp add: sum_list_indicator)
  finally show ?case using Cons by simp
qed

text \<open>
  In a zone of one offset the time value of a calendar day grows with the day,
  and \<open>setDate(getDate() + 1)\<close> moves the date of a calendar day to the date of the
  next one.
\<close>

lemma timeValue_fixed: "timeValue (fixedOffset c) d = d * msPerDay - c"
  by (simp add: timeValue_def UTC_def MakeDate_def fixedOffset_def)

lemma timeValue_fixed_eq:
  "timeValue (fixedOffset c) d = timeValue (fixedOffset c) d' \<longleftrightarrow> d = d'"
  by (simp add: timeValue_fixed msPerDay_def)

lemma timeValue_fixed_le:
  "timeValue (fixedOffset c) d \<le> timeValue (fixedOffset c) d' \<longleftrightarrow> d \<le> d'"
  by (simp add: timeValue_fixed msPerDay_def)

lemma setDate_fixed:
  "setDate (fixedOffset c) (timeValue (fixedOffset c) d)
      (getDate (Day (LocalTime (fixedOffset c) (timeValue (fixedOffset c) d))) + 1)
   = timeValue (fixedOffset c) (d + 1)"
proof -
  have lt: "LocalTime (fixedOffset c) (timeValue (fixedOffset c) d) = d * msPerDay"
    unfolding LocalTime_def timeValue_fixed by (simp add: fixedOffset_def)
  have dy: "Day (d * msPerDay) = d" and tw: "TimeWithinDay (d * msPerDay) = 0"
    by (simp_all add: Day_def TimeWithinDay_def msPerDay_def)
  show ?thesis
    unfolding setDate_def lt Let_def dy tw getDate_def setDate_next_day
    by (simp add: timeValue_def)
qed

lemma dateLoop_fixed:
  "dateLoop (fixedOffset c) (timeValue (fixedOffset c) d) (timeValue (fixedOffset c) mx) ds
     = Some (ds @ map (timeValue (fixedOffset c)) [d..mx])"
proof (induction "nat (mx + 1 - d)" arbitrary: d ds)
  case 0
  then have "mx < d" by simp
  then show ?case by (subst dateLoop.simps) (simp add: timeValue_fixed_le)
next
  case (Suc k)
  then have le: "d \<le> mx" and k: "k = nat (mx + 1 - (d + 1))" by simp_all
  have "dateLoop (fixedOffset c) (timeValue (fixedOffset c) d) (timeValue (fixedOffset c) mx) ds
      = dateLoop (fixedOffset c) (timeValue (fixedOffset c) (d + 1))
          (timeValue (fixedOffset c) mx) (ds @ [timeValue (fixedOffset c) d])"
    by (subst dateLoop.simps) (simp add: timeValue_fixed_le le setDate_fixed)
  also have "\<dots> = Some ((ds @ [timeValue (fixedOffset c) d])
                        @ map (timeValue (fixedOffset c)) [d + 1..mx])"
    by (rule Suc.hyps(1) [OF k])
  also have "\<dots> = Some (ds @ map (timeValue (fixedOffset c)) [d..mx])"
    using le by (simp add: upto_rec1)
  finally show ?case .
qed

lemma timeValue_fixed_Min:
  assumes "ts \<noteq> []"
  shows "Min (set (map (timeValue (fixedOffset c)) ts)) = timeValue (fixedOffset c) (Min (set ts))"
    and "Max (set (map (timeValue (fixedOffset c)) ts)) = timeValue (fixedOffset c) (Max (set ts))"
proof -
  have m: "mono (timeValue (fixedOffset c))"
    by (rule monoI) (simp add: timeValue_fixed_le)
  have f: "finite (set ts)" "set ts \<noteq> {}" using assms by simp_all
  show "Min (set (map (timeValue (fixedOffset c)) ts)) = timeValue (fixedOffset c) (Min (set ts))"
    using mono_Min_commute [OF m f] by simp
  show "Max (set (map (timeValue (fixedOffset c)) ts)) = timeValue (fixedOffset c) (Max (set ts))"
    using mono_Max_commute [OF m f] by simp
qed

lemma dates_fixed:
  assumes "ts \<noteq> []" and "map Date rawData = map Some ts"
  shows "dates (fixedOffset c) rawData
     = Some (map (timeValue (fixedOffset c)) [Min (set ts)..Max (set ts)])"
proof -
  have "map (\<lambda>d. map_option (timeValue (fixedOffset c)) (Date d)) rawData
      = map (map_option (timeValue (fixedOffset c))) (map Date rawData)"
    by (simp add: comp_def)
  also have "\<dots> = map Some (map (timeValue (fixedOffset c)) ts)"
    unfolding assms(2) by (simp add: comp_def)
  finally have e: "map (\<lambda>d. map_option (timeValue (fixedOffset c)) (Date d)) rawData
      = map Some (map (timeValue (fixedOffset c)) ts)" .
  have ne: "map (timeValue (fixedOffset c)) ts \<noteq> []" using assms(1) by simp
  show ?thesis
    unfolding dates_def e extent_Min_Max [OF ne] timeValue_fixed_Min [OF assms(1)]
    using dateLoop_fixed [of c "Min (set ts)" "Max (set ts)" "[]"] by simp
qed

lemma filterByTime_fixed:
  "map Date rawData = map Some ts \<Longrightarrow>
     filterByTime (fixedOffset c) rawData (timeValue (fixedOffset c) t)
       = Inr (filter (\<lambda>r. Date r = Some t) rawData)"
  by (induction rawData arbitrary: ts) (auto simp add: timeValue_fixed_eq)

lemma dailyFrom_fixed:
  assumes "map Date rawData = map Some ts"
  shows "dailyFrom (fixedOffset c) m rawData (map (timeValue (fixedOffset c)) ds) =
     Inr (map (\<lambda>d. \<lparr>day = m (timeValue (fixedOffset c) d),
                      count = length (filter (\<lambda>r. Date r = Some d) rawData)\<rparr>) ds)"
  by (induction ds) (simp_all add: filterByTime_fixed [OF assms])

lemma dateToDay_fixed:
  assumes "mn \<le> t" "t \<le> mx"
  shows "dateToDay (map (timeValue (fixedOffset c)) [mn..mx]) (timeValue (fixedOffset c) t)
     = Some (nat (t - mn) + 1)"
proof -
  have "distinct (map (timeValue (fixedOffset c)) [mn..mx])"
    by (simp add: distinct_map inj_on_def timeValue_fixed_eq)
  from dateToDay_nth [OF this, of "nat (t - mn)"] assms show ?thesis by simp
qed

lemma dailyCounts_fixed:
  assumes "ts \<noteq> []" and "map Date rawData = map Some ts"
  shows "dailyCounts (fixedOffset c) rawData =
     Some (Inr (map (\<lambda>t. \<lparr>day = Some (nat (t - Min (set ts)) + 1),
                      count = length (filter (\<lambda>r. Date r = Some t) rawData)\<rparr>)
            [Min (set ts)..Max (set ts)]))"
proof -
  let ?mn = "Min (set ts)" and ?mx = "Max (set ts)"
  let ?tv = "timeValue (fixedOffset c)"
  have "dailyCounts (fixedOffset c) rawData =
      Some (Inr (map (\<lambda>d. \<lparr>day = dateToDay (map ?tv [?mn..?mx]) (?tv d),
                       count = length (filter (\<lambda>r. Date r = Some d) rawData)\<rparr>) [?mn..?mx]))"
    by (simp add: dailyCounts_def dates_fixed [OF assms] dailyFrom_fixed [OF assms(2)])
  moreover have "map (\<lambda>d. \<lparr>day = dateToDay (map ?tv [?mn..?mx]) (?tv d),
                       count = length (filter (\<lambda>r. Date r = Some d) rawData)\<rparr>) [?mn..?mx]
     = map (\<lambda>t. \<lparr>day = Some (nat (t - ?mn) + 1),
                      count = length (filter (\<lambda>r. Date r = Some t) rawData)\<rparr>) [?mn..?mx]"
    by (rule map_cong) (simp_all add: dateToDay_fixed)
  ultimately show ?thesis by simp
qed

lemma day_indexes_contiguous:
  "map (\<lambda>t. Some (nat (t - mn) + 1)) [mn..mx] = map Some [1..<Suc (length [mn..mx])]"
  by (rule nth_equalityI) (simp_all del: upt_Suc)

lemma counts_total:
  assumes "ts \<noteq> []" and "map Date rawData = map Some ts"
  shows "sum_list (map (\<lambda>t. length (filter (\<lambda>r. Date r = Some t) rawData))
            [Min (set ts)..Max (set ts)]) = length rawData"
proof -
  let ?ks = "map Some [Min (set ts)..Max (set ts)]"
  have "distinct ?ks" by (simp add: distinct_map)
  moreover have "\<forall>r\<in>set rawData. Date r \<in> set ?ks"
  proof
    fix r assume "r \<in> set rawData"
    then have "Date r \<in> set (map Date rawData)" by simp
    then obtain t where t: "t \<in> set ts" "Date r = Some t" unfolding assms(2) by auto
    then have "Min (set ts) \<le> t" "t \<le> Max (set ts)" by simp_all
    with t(2) show "Date r \<in> set ?ks" by simp
  qed
  ultimately have
    "sum_list (map (\<lambda>k. length (filter (\<lambda>r. Date r = k) rawData)) ?ks) = length rawData"
    by (rule count_partition)
  then show ?thesis by (simp add: comp_def)
qed

text \<open>
  In a time zone of one offset the builder does what claim C1 says. Let
  \<open>rawData\<close> be a non-empty list of entries whose dates all parsed (\<open>ts\<close> lists
  their calendar days). Then the builder returns one bucket for every calendar day
  from the least to the greatest entry date, both included and in order; the
  bucket of day \<open>t\<close> counts the entries dated \<open>t\<close>; the day indexes are
  1, 2, 3, ... without a gap; the counts add up to the number of entries; and a
  single entry gives exactly one bucket, of day index 1.
\<close>

lemma day_buckets_fixed_offset:
  assumes "ts \<noteq> []" and "map Date rawData = map Some ts"
  shows "\<exists>bs. dailyCounts (fixedOffset c) rawData = Some (Inr bs)
     \<and> bs = map (\<lambda>t. \<lparr>day = Some (nat (t - Min (set ts)) + 1),
                        count = length (filter (\<lambda>r. Date r = Some t) rawData)\<rparr>)
               [Min (set ts)..Max (set ts)]
     \<and> map day bs = map Some [1..<Suc (length bs)]
     \<and> sum_list (map count bs) = length rawData
     \<and> (length rawData = 1 \<longrightarrow> map day bs = [Some 1])"
proof -
  let ?bs = "map (\<lambda>t. \<lparr>day = Some (nat (t - Min (set ts)) + 1),
                        count = length (filter (\<lambda>r. Date r = Some t) rawData)\<rparr>)
               [Min (set ts)..Max (set ts)]"
  have a: "dailyCounts (fixedOffset c) rawData = Some (Inr ?bs)"
    by (rule dailyCounts_fixed [OF assms])
  have b: "map day ?bs = map Some [1..<Suc (length ?bs)]"
    using day_indexes_contiguous [of "Min (set ts)" "Max (set ts)"] by (simp add: comp_def)
  have c: "sum_list (map count ?bs) = length rawData"
    using counts_total [OF assms] by (simp add: comp_def)
  have d: "map day ?bs = [Some 1]" if "length rawData = 1"
  proof -
    have "length (map Date rawData) = length (map Some ts)" using assms(2) by simp
    with that have "length ts = 1" by simp
    then obtain t where "ts = [t]" by (cases ts) auto
    then show ?thesis by simp
  qed
  show ?thesis
  proof (intro exI conjI impI)
    show "dailyCounts (fixedOffset c) rawData = Some (Inr ?bs)" by (rule a)
    show "?bs = ?bs" by (rule refl)
    show "map day ?bs = map Some [1..<Suc (length ?bs)]" by (rule b)
    show "sum_list (map count ?bs) = length rawData" by (rule c)
    show "map day ?bs = [Some 1]" if "length rawData = 1" using that by (rule d)
  qed
qed

lemma day_buckets_utc_example:
  "dailyCounts (fixedOffset 0)
     [\<lparr>Date = Some 20089, Person = ''A'', Game = ''Chess''\<rparr>,
      \<lparr>Date = Some 20089, Person = ''B'', Game = ''Chess''\<rparr>,
      \<lparr>Date = Some 20091, Person = ''A'', Game = ''Go''\<rparr>]
   = Some (Inr [\<lparr>day = Some 1, count = 2\<rparr>, \<lparr>day = Some 2, count = 0\<rparr>,
                \<lparr>day = Some 3, count = 1\<rparr>])"
  by code_simp

text \<open>
  Claim C1 fails in a time zone in which a switch to daylight-saving time removes
  a midnight. In the zone \<open>saoPaulo\<close> the midnight of 4 November 2018 does not
  exist: the date of that day is 01:00, and \<open>setDate\<close>, which keeps the time within
  the day, moves it to 01:00 of 5 November, which is after the greatest entry
  date, the midnight of 5 November. For three entries, of 3, 4 and 5 November
  2018 (the texts \<open>11/03/2018\<close>, \<open>11/04/2018\<close> and \<open>11/05/2018\<close> of the data file),
  the builder returns two buckets, not three, and their counts add up to 2, not
  to the number of entries.
\<close>

theorem C1_skipped_midnight:
  "map timeParse [''11/03/2018'', ''11/04/2018'', ''11/05/2018'']
     = [Some 17838, Some 17839, Some 17840]
   \<and> map (timeValue saoPaulo) [17838, 17839, 17840]
     = [1541214000000, 1541300400000, 1541383200000]
   \<and> setDate saoPaulo 1541300400000 (getDate (Day (LocalTime saoPaulo 1541300400000)) + 1)
     = 1541386800000
   \<and> dailyCounts saoPaulo
       [\<lparr>Date = Some 17838, Person = ''A'', Game = ''Chess''\<rparr>,
        \<lparr>Date = Some 17839, Person = ''A'', Game = ''Chess''\<rparr>,
        \<lparr>Date = Some 17840, Person = ''A'', Game = ''Chess''\<rparr>]
     = Some (Inr [\<lparr>day = Some 1, count = 1\<rparr>, \<lparr>day = Some 2, count = 1\<rparr>])"
  by code_simp

section \<open>Properties of the cumulative aggregator\<close>

lemma cumulativeFrom_length: "length (cumulativeFrom r ds) = length ds"
  by (induction ds arbitrary: r) (simp_all add: Let_def)

lemma cumulativeFrom_days: "map cum_day (cumulativeFrom r ds) = map day ds"
  by (induction ds arbitrary: r) (simp_all add: Let_def)

lemma cumulativeFrom_total:
  "i < length ds \<Longrightarrow>
     total (cumulativeFrom r ds ! i) = r + sum_list (map count (take (Suc i) ds))"
proof (induction ds arbitrary: r i)
  case Nil
  then show ?case by simp
next
  case (Cons d ds)
  then show ?case by (cases i) (simp_all add: Let_def)
qed

lemma cumulativeFrom_lower: "c \<in> set (cumulativeFrom r ds) \<Longrightarrow> r \<le> total c"
proof (induction ds arbitrary: r)
  case Nil
  then show ?case by simp
next
  case (Cons d ds)
  from Cons.prems consider "total c = r + count d" | "c \<in> set (cumulativeFrom (r + count d) ds)"
    by (auto simp add: Let_def)
  then show ?case
  proof cases
    case 1
    then show ?thesis by simp
  next
    case 2
    from Cons.IH [OF 2] show ?thesis by simp
  qed
qed

lemma cumulativeFrom_sorted: "sorted (map total (cumulativeFrom r ds))"
proof (induction ds arbitrary: r)
  case Nil
  show ?case by simp
next
  case (Cons d ds)
  then show ?case by (auto simp add: Let_def dest: cumulativeFrom_lower)
qed

text \<open>
  Claim C2. For every list of day buckets the aggregator returns one cumulative
  bucket per input bucket, with the same day; the total at position \<open>i\<close> is the
  sum of the counts up to and including position \<open>i\<close>; the totals never decrease;
  and the last total is the sum of all counts.
\<close>

theorem C2_cumulative_prefix_sums:
  "length (cumulative ds) = length ds
   \<and> map cum_day (cumulative ds) = map day ds
   \<and> (\<forall>i<length ds. total (cumulative ds ! i) = sum_list (map count (take (Suc i) ds)))
   \<and> sorted (map total (cumulative ds))
   \<and> (ds \<noteq> [] \<longrightarrow> total (last (cumulative ds)) = sum_list (map count ds))"
proof -
  have "total (last (cumulative ds)) = sum_list (map count ds)" if "ds \<noteq> []"
  proof -
    from that have "cumulative ds \<noteq> []"
      using cumulativeFrom_length [of 0 ds] by (auto simp add: cumulative_def)
    then have "last (cumulative ds) = cumulative ds ! (length ds - 1)"
      by (simp add: last_conv_nth cumulative_def cumulativeFrom_length)
    then show ?thesis
      using that cumulativeFrom_total [of "length ds - 1" ds 0] by (simp add: cumulative_def)
  qed
  then show ?thesis
    by (simp add: cumulative_def cumulativeFrom_length cumulativeFrom_days
        cumulativeFrom_total cumulativeFrom_sorted)
qed

theorem C2_witness:
  "map total (cumulative [\<lparr>day = Some 1, count = 2\<rparr>, \<lparr>day = Some 2, count = 0\<rparr>,
                          \<lparr>day = Some 3, count = 1\<rparr>]) = [2, 2, 3]
   \<and> total (cumulative [\<lparr>day = Some 1, count = 2\<rparr>, \<lparr>day = Some 2, count = 0\<rparr>,
                          \<lparr>day = Some 3, count = 1\<rparr>] ! 1) = 2
   \<and> total (last (cumulative [\<lparr>day = Some 1, count = 2\<rparr>, \<lparr>day = Some 2, count = 0\<rparr>,
                          \<lparr>day = Some 3, count = 1\<rparr>])) = 3"
  using C2_cumulative_prefix_sums [of "[\<lparr>day = Some 1, count = 2\<rparr>, \<lparr>day = Some 2, count = 0\<rparr>,
                          \<lparr>day = Some 3, count = 1\<rparr>]"]
  by (simp add: cumulative_def)

section \<open>Properties of the animated chart\<close>

lemma fallbackDaily_days: "map day fallbackDaily = map Some [1..<31]"
proof -
  have "map day fallbackDaily = map Some (map Suc [0..<30])"
    by (simp add: fallbackDaily_def comp_def)
  also have "map Suc [0..<30] = [Suc 0..<Suc 30]" by (rule map_Suc_upt)
  finally show ?thesis by simp
qed

text \<open>
  Claim C9. In the animated chart an empty row set gives exactly 30 day buckets,
  of day indexes 1 to 30 and count 0, a cumulative series of the same days whose
  totals are all 0, and the value 10 for both scale maxima. The date range is not
  enumerated: the result does not depend on \<open>dates\<close>.
\<close>

theorem C9_empty_rows_fallback:
  "\<exists>cd. chartData tz [] = Some (Inr cd)
     \<and> length (cd_dailyCounts cd) = 30
     \<and> map day (cd_dailyCounts cd) = map Some [1..<31]
     \<and> map count (cd_dailyCounts cd) = replicate 30 0
     \<and> map cum_day (cd_cumulative cd) = map Some [1..<31]
     \<and> map total (cd_cumulative cd) = replicate 30 0
     \<and> yBarMax cd = Some 10 \<and> yLineMax cd = Some 10"
proof -
  have c: "map count fallbackDaily = replicate 30 0"
    by (simp add: fallbackDaily_def comp_def map_replicate_const)
  have d: "map cum_day fallbackCumulative = map Some [1..<31]"
    using fallbackDaily_days by (simp add: fallbackCumulative_def comp_def)
  have t: "map total fallbackCumulative = replicate 30 0"
    by (simp add: fallbackCumulative_def comp_def map_replicate_const fallbackDaily_def)
  have l: "length fallbackDaily = 30" by (simp add: fallbackDaily_def)
  show ?thesis
    using c d t l fallbackDaily_days by (simp add: chartData_def)
qed

section \<open>Properties of the normalizer\<close>

text \<open>
  Claim C3, as amended. For every sequence of raw records and every parser, the
  normalizer returns exactly one entry per record, in the order of the records,
  with the record's participant and game; the entry of a record whose date fails
  to parse is kept and has the date \<open>null\<close>.
\<close>

theorem C3_normalize_keeps_every_row:
  "length (normalize parseDate raw) = length raw
   \<and> map Person (normalize parseDate raw) = map raw_Person raw
   \<and> map Game (normalize parseDate raw) = map raw_Game raw
   \<and> (\<forall>i<length raw. parseDate (raw_Date (raw ! i)) = None \<longrightarrow>
         Date (normalize parseDate raw ! i) = None)"
  by (simp add: normalize_def comp_def)

theorem C3_witness:
  "length (normalize timeParse
      [\<lparr>raw_Date = ''1/1/2025'', raw_Person = ''A'', raw_Game = ''Chess''\<rparr>,
       \<lparr>raw_Date = ''soon'', raw_Person = ''B'', raw_Game = ''Go''\<rparr>]) = 2
   \<and> timeParse ''soon'' = None
   \<and> Date (normalize timeParse
      [\<lparr>raw_Date = ''1/1/2025'', raw_Person = ''A'', raw_Game = ''Chess''\<rparr>,
       \<lparr>raw_Date = ''soon'', raw_Person = ''B'', raw_Game = ''Go''\<rparr>] ! 1) = None"
proof -
  have f: "timeParse ''soon'' = None" by code_simp
  show ?thesis
    using f C3_normalize_keeps_every_row [of timeParse
      "[\<lparr>raw_Date = ''1/1/2025'', raw_Person = ''A'', raw_Game = ''Chess''\<rparr>,
       \<lparr>raw_Date = ''soon'', raw_Person = ''B'', raw_Game = ''Go''\<rparr>]"]
    by simp
qed

text \<open>
  The claim as stated fails: the record with the date text \<open>soon\<close> is in the
  output of the normalizer, and the day-bucket builder then raises on the batch.
\<close>

theorem C3_counterexample:
  "timeParse ''soon'' = None
   \<and> normalize timeParse
      [\<lparr>raw_Date = ''1/1/2025'', raw_Person = ''A'', raw_Game = ''Chess''\<rparr>,
       \<lparr>raw_Date = ''soon'', raw_Person = ''B'', raw_Game = ''Go''\<rparr>]
     = [\<lparr>Date = Some 20089, Person = ''A'', Game = ''Chess''\<rparr>,
        \<lparr>Date = None, Person = ''B'', Game = ''Go''\<rparr>]
   \<and> dailyCounts (fixedOffset 0) (normalize timeParse
      [\<lparr>raw_Date = ''1/1/2025'', raw_Person = ''A'', raw_Game = ''Chess''\<rparr>,
       \<lparr>raw_Date = ''soon'', raw_Person = ''B'', raw_Game = ''Go''\<rparr>]) = Some (Inl TypeError)"
  by code_simp

section \<open>Properties of the leaderboards\<close>

lemma foldl_setAdd_set: "set (foldl setAdd acc xs) = set acc \<union> set xs"
  by (induction xs arbitrary: acc) auto

lemma foldl_setAdd_distinct: "distinct acc \<Longrightarrow> distinct (foldl setAdd acc xs)"
  by (induction xs arbitrary: acc) auto

lemma newSet_set: "set (newSet xs) = set xs"
  by (simp add: newSet_def foldl_setAdd_set)

lemma newSet_distinct: "distinct (newSet xs)"
  by (simp add: newSet_def foldl_setAdd_distinct)

lemma newSet_snoc: "newSet (xs @ [x]) = setAdd (newSet xs) x"
  by (simp add: newSet_def)

lemma takeWhile_append_in:
  "x \<in> set xs \<Longrightarrow> takeWhile (\<lambda>y. y \<noteq> x) (xs @ ys) = takeWhile (\<lambda>y. y \<noteq> x) xs"
  by (induction xs) auto

lemma first_index_less: "x \<in> set xs \<Longrightarrow> length (takeWhile (\<lambda>y. y \<noteq> x) xs) < length xs"
  by (induction xs) auto

lemma newSet_first_seen:
  "sorted_wrt (\<lambda>p q. length (takeWhile (\<lambda>y. y \<noteq> p) xs) < length (takeWhile (\<lambda>y. y \<noteq> q) xs))
     (newSet xs)"
proof (induction xs rule: rev_induct)
  case Nil
  show ?case by (simp add: newSet_def)
next
  case (snoc x xs)
  let ?P = "\<lambda>zs p q. length (takeWhile (\<lambda>y. y \<noteq> p) zs) < length (takeWhile (\<lambda>y. y \<noteq> q) zs)"
  have old: "sorted_wrt (?P (xs @ [x])) (newSet xs)"
  proof (rule sorted_wrt_mono_rel [OF _ snoc.IH])
    fix p q assume "p \<in> set (newSet xs)" "q \<in> set (newSet xs)" "?P xs p q"
    then show "?P (xs @ [x]) p q" by (simp add: newSet_set takeWhile_append_in)
  qed
  show ?case
  proof (cases "x \<in> set xs")
    case True
    then show ?thesis using old by (simp add: newSet_snoc newSet_set)
  next
    case False
    have "?P (xs @ [x]) p x" if "p \<in> set xs" for p
    proof -
      have "length (takeWhile (\<lambda>y. y \<noteq> p) (xs @ [x])) < length xs"
        using that by (simp add: takeWhile_append_in first_index_less)
      moreover have "takeWhile (\<lambda>y. y \<noteq> x) (xs @ [x]) = xs"
        using False by (induction xs) auto
      ultimately show ?thesis by simp
    qed
    then show ?thesis
      using old False by (simp add: newSet_snoc newSet_set sorted_wrt_append)
  qed
qed

lemma players_first_seen:
  "sorted_wrt (\<lambda>p q. firstSeenAt entries p < firstSeenAt entries q) (players entries)"
proof -
  have "firstSeenAt entries p = length (takeWhile (\<lambda>y. y \<noteq> p) (map Person entries))" for p
    by (simp add: firstSeenAt_def takeWhile_map comp_def)
  then show ?thesis
    using newSet_first_seen [of "map Person entries"] by (simp add: players_def)
qed

lemma insertBy_insort:
  "insertBy byValueDesc x ys = insort_key (\<lambda>r. - int (pvalue r)) x ys"
  by (induction ys) (auto simp add: byValueDesc_def)

lemma sortBy_sort_key:
  "sortBy byValueDesc xs = sort_key (\<lambda>r. - int (pvalue r)) xs"
  by (induction xs) (simp_all add: sortBy_def insertBy_insort)

lemma daysInv_None: "daysInv es m \<Longrightarrow> m p = None \<Longrightarrow> p \<notin> Person ` set es"
  unfolding daysInv_def by blast

lemma daysInv_Some:
  "daysInv es m \<Longrightarrow> m p = Some s \<Longrightarrow>
     distinct s \<and> set s = {t. \<exists>e\<in>set es. Person e = p \<and> Date e = Some t}"
  unfolding daysInv_def by blast

lemma daysInv_update:
  assumes inv: "daysInv es m" and e: "Date e = Some t"
    and s: "distinct s'" "set s' = {t. \<exists>e'\<in>set (es @ [e]). Person e' = Person e \<and> Date e' = Some t}"
  shows "daysInv (es @ [e]) (m(Person e \<mapsto> s'))"
  unfolding daysInv_def
proof (intro conjI allI impI)
  fix p assume "(m(Person e \<mapsto> s')) p = None"
  then have ne: "p \<noteq> Person e" and "m p = None" by (auto split: if_splits)
  from daysInv_None [OF inv this(2)] ne show "p \<notin> Person ` set (es @ [e])" by auto
next
  fix p s assume a: "(m(Person e \<mapsto> s')) p = Some s"
  show "distinct s"
  proof (cases "p = Person e")
    case True with a s(1) show ?thesis by simp
  next
    case False with a daysInv_Some [OF inv, of p s] show ?thesis by simp
  qed
  show "set s = {t. \<exists>e\<in>set (es @ [e]). Person e = p \<and> Date e = Some t}"
  proof (cases "p = Person e")
    case True with a s(2) show ?thesis by simp
  next
    case False
    with a have "m p = Some s" by simp
    from daysInv_Some [OF inv this] False show ?thesis by auto
  qed
qed

lemma daysStep_inv:
  assumes "daysInv es m" and "Date e = Some t"
  shows "\<exists>m'. daysStep m e = Inr m' \<and> daysInv (es @ [e]) m'"
proof (cases "m (Person e)")
  case None
  then have st: "daysStep m e = Inr (m(Person e \<mapsto> [t]))" using assms(2) by simp
  have "Person e \<notin> Person ` set es" by (rule daysInv_None [OF assms(1) None])
  then have "\<forall>e'\<in>set es. Person e' \<noteq> Person e"
    by (metis imageI)
  then have "set [t] = {t. \<exists>e'\<in>set (es @ [e]). Person e' = Person e \<and> Date e' = Some t}"
    using assms(2) by auto
  then have "daysInv (es @ [e]) (m(Person e \<mapsto> [t]))"
    by (intro daysInv_update [OF assms]) simp_all
  with st show ?thesis by simp
next
  case (Some s)
  then have st: "daysStep m e = Inr (m(Person e \<mapsto> setAdd s t))" using assms(2) by simp
  from daysInv_Some [OF assms(1) Some] have s: "distinct s"
      "set s = {t. \<exists>e'\<in>set es. Person e' = Person e \<and> Date e' = Some t}"
    by simp_all
  have "distinct (setAdd s t)" using s(1) by simp
  moreover have "set (setAdd s t) =
      {t. \<exists>e'\<in>set (es @ [e]). Person e' = Person e \<and> Date e' = Some t}"
    using s(2) assms(2) by auto
  ultimately have "daysInv (es @ [e]) (m(Person e \<mapsto> setAdd s t))"
    by (rule daysInv_update [OF assms])
  with st show ?thesis by simp
qed

lemma daysSetFrom_inv:
  "daysInv pre m \<Longrightarrow> map Date es = map Some ts \<Longrightarrow>
     \<exists>m'. daysSetFrom m es = Inr m' \<and> daysInv (pre @ es) m'"
proof (induction es arbitrary: pre m ts)
  case Nil
  then show ?case by simp
next
  case (Cons e es)
  from Cons.prems(2) obtain t ts' where t: "Date e = Some t" "map Date es = map Some ts'"
    by (cases ts) auto
  from daysStep_inv [OF Cons.prems(1) t(1)] obtain m1
    where m1: "daysStep m e = Inr m1" "daysInv (pre @ [e]) m1" by blast
  from Cons.IH [OF m1(2) t(2)] obtain m' where "daysSetFrom m1 es = Inr m'" "daysInv ((pre @ [e]) @ es) m'"
    by blast
  with m1(1) show ?case by simp
qed

lemma daysSet_ok:
  assumes "map Date entries = map Some ts"
  shows "\<exists>m. daysSet entries = Inr m \<and> daysInv entries m"
proof -
  have "daysInv [] Map.empty" by (simp add: daysInv_def)
  from daysSetFrom_inv [OF this assms, of] show ?thesis by (simp add: daysSet_def)
qed

lemma daysPlayedFrom_ok:
  assumes "daysInv entries m"
  shows "set ps \<subseteq> Person ` set entries \<Longrightarrow>
     daysPlayedFrom m ps = Inr (map (\<lambda>p. \<lparr>player = p, pvalue = distinctDays entries p\<rparr>) ps)"
proof (induction ps)
  case Nil
  show ?case by simp
next
  case (Cons p ps)
  then have "p \<in> Person ` set entries" by simp
  with daysInv_None [OF assms, of p] obtain s where s: "m p = Some s" by (cases "m p") auto
  from daysInv_Some [OF assms s] have d: "distinct s"
      "set s = {t. \<exists>e\<in>set entries. Person e = p \<and> Date e = Some t}" by simp_all
  have "length s = distinctDays entries p"
    unfolding distinctDays_def d(2) [symmetric] using d(1) by (simp add: distinct_card)
  with s Cons show ?case by simp
qed

lemma daysInv_empty: "daysInv [] Map.empty"
  by (simp add: daysInv_def)


lemma leaderboards_ok:
  assumes "entries \<noteq> []" and "map Date entries = map Some ts"
  shows "leaderboards entries =
     Inr (Some (sortBy byValueDesc (totals entries),
                sortBy byValueDesc
                  (map (\<lambda>p. \<lparr>player = p, pvalue = distinctDays entries p\<rparr>) (players entries))))"
proof -
  from daysSet_ok [OF assms(2)] obtain m where m: "daysSet entries = Inr m" "daysInv entries m"
    by blast
  have "set (players entries) \<subseteq> Person ` set entries"
    by (simp add: players_def newSet_set)
  from daysPlayedFrom_ok [OF m(2) this] m(1) assms(1) show ?thesis
    by (simp add: leaderboards_def)
qed

lemma sortBy_desc_sorted: "sorted_wrt (\<lambda>a b. pvalue b \<le> pvalue a) (sortBy byValueDesc xs)"
proof -
  have "sorted (map (\<lambda>r. - int (pvalue r)) (sort_key (\<lambda>r. - int (pvalue r)) xs))"
    by (rule sorted_sort_key)
  then show ?thesis
    by (simp add: sortBy_sort_key sorted_map) 
qed

text \<open>
  Claim C8. For a non-empty list of entries whose dates all parsed, the second
  leaderboard has one row per participant; the value of a row is the number of
  distinct calendar days on which the participant has an entry; the rows are in
  descending order of value; and among the rows of any one value the
  participants are in the order of their first entries.
\<close>

theorem C8_distinct_days_leaderboard:
  assumes "entries \<noteq> []" and "map Date entries = map Some ts"
  shows "\<exists>tot ds. leaderboards entries = Inr (Some (tot, ds))
     \<and> distinct (map player ds)
     \<and> set (map player ds) = Person ` set entries
     \<and> (\<forall>d\<in>set ds. pvalue d = card {t. \<exists>e\<in>set entries. Person e = player d \<and> Date e = Some t})
     \<and> sorted_wrt (\<lambda>a b. pvalue b \<le> pvalue a) ds
     \<and> (\<forall>v. sorted_wrt (\<lambda>p q. firstSeenAt entries p < firstSeenAt entries q)
               (map player (filter (\<lambda>d. pvalue d = v) ds)))"
proof -
  let ?un = "map (\<lambda>p. \<lparr>player = p, pvalue = distinctDays entries p\<rparr>) (players entries)"
  let ?ds = "sortBy byValueDesc ?un"
  have ds: "?ds = sort_key (\<lambda>r. - int (pvalue r)) ?un" by (rule sortBy_sort_key)
  have un_players: "map player ?un = players entries" by (simp add: comp_def)
  have inj: "inj_on player (set ?un)" by (auto simp add: inj_on_def)
  have a: "distinct (map player ?ds)"
  proof -
    have "distinct ?un"
      using un_players newSet_distinct [of "map Person entries"]
      by (metis distinct_map players_def)
    then show ?thesis
      using inj by (simp add: ds distinct_map)
  qed
  have b: "set (map player ?ds) = Person ` set entries"
  proof -
    have "set (map player ?ds) = set (players entries)" by (simp add: ds image_image)
    then show ?thesis by (simp add: players_def newSet_set)
  qed
  have c: "\<forall>d\<in>set ?ds. pvalue d = card {t. \<exists>e\<in>set entries. Person e = player d \<and> Date e = Some t}"
    unfolding ds set_sort by (auto simp add: distinctDays_def)
  have d: "sorted_wrt (\<lambda>a b. pvalue b \<le> pvalue a) ?ds" by (rule sortBy_desc_sorted)
  have e: "sorted_wrt (\<lambda>p q. firstSeenAt entries p < firstSeenAt entries q)
               (map player (filter (\<lambda>d. pvalue d = v) ?ds))" for v
  proof -
    have "filter (\<lambda>d. pvalue d = v) ?ds = filter (\<lambda>d. - int (pvalue d) = - int v) ?ds"
      by (rule filter_cong) auto
    also have "\<dots> = filter (\<lambda>d. - int (pvalue d) = - int v) ?un"
      unfolding ds by (rule sort_key_stable)
    also have "\<dots> = filter (\<lambda>d. pvalue d = v) ?un"
      by (rule filter_cong) auto
    finally have "map player (filter (\<lambda>d. pvalue d = v) ?ds)
        = filter (\<lambda>p. distinctDays entries p = v) (players entries)"
      by (simp add: filter_map comp_def)
    then show ?thesis
      using players_first_seen [of entries] by (simp add: sorted_wrt_filter)
  qed
  show ?thesis
    unfolding leaderboards_ok [OF assms]
  proof (intro exI conjI allI)
    show "Inr (Some (sortBy byValueDesc (totals entries), ?ds)) =
          Inr (Some (sortBy byValueDesc (totals entries), ?ds))" by (rule refl)
  qed (fact a b c d e)+
qed


theorem C8_witness:
  "leaderboards
     [\<lparr>Date = Some 20089, Person = ''A'', Game = ''Chess''\<rparr>,
      \<lparr>Date = Some 20089, Person = ''A'', Game = ''Go''\<rparr>,
      \<lparr>Date = Some 20089, Person = ''B'', Game = ''Chess''\<rparr>,
      \<lparr>Date = Some 20090, Person = ''B'', Game = ''Chess''\<rparr>,
      \<lparr>Date = Some 20091, Person = ''C'', Game = ''Go''\<rparr>]
   = Inr (Some ([\<lparr>player = ''A'', pvalue = 2\<rparr>, \<lparr>player = ''B'', pvalue = 2\<rparr>,
                 \<lparr>player = ''C'', pvalue = 1\<rparr>],
                [\<lparr>player = ''B'', pvalue = 2\<rparr>, \<lparr>player = ''A'', pvalue = 1\<rparr>,
                 \<lparr>player = ''C'', pvalue = 1\<rparr>]))
   \<and> sorted_wrt (\<lambda>a b. pvalue b \<le> pvalue a)
        [\<lparr>player = ''B'', pvalue = 2\<rparr>, \<lparr>player = ''A'', pvalue = 1\<rparr>,
         \<lparr>player = ''C'', pvalue = 1\<rparr>]"
proof -
  let ?ex = "[\<lparr>Date = Some 20089, Person = ''A'', Game = ''Chess''\<rparr>,
      \<lparr>Date = Some 20089, Person = ''A'', Game = ''Go''\<rparr>,
      \<lparr>Date = Some 20089, Person = ''B'', Game = ''Chess''\<rparr>,
      \<lparr>Date = Some 20090, Person = ''B'', Game = ''Chess''\<rparr>,
      \<lparr>Date = Some 20091, Person = ''C'', Game = ''Go''\<rparr>]"
  have h1: "?ex \<noteq> []" by simp
  have h2: "map Date ?ex = map Some [20089, 20089, 20089, 20090, 20091]" by simp
  have ev: "leaderboards ?ex
     = Inr (Some ([\<lparr>player = ''A'', pvalue = 2\<rparr>, \<lparr>player = ''B'', pvalue = 2\<rparr>,
                 \<lparr>player = ''C'', pvalue = 1\<rparr>],
                [\<lparr>player = ''B'', pvalue = 2\<rparr>, \<lparr>player = ''A'', pvalue = 1\<rparr>,
                 \<lparr>player = ''C'', pvalue = 1\<rparr>]))"
    by code_simp
  from C8_distinct_days_leaderboard [OF h1 h2] obtain tot ds
    where r: "leaderboards ?ex = Inr (Some (tot, ds))"
      and s: "sorted_wrt (\<lambda>a b. pvalue b \<le> pvalue a) ds"
    by blast
  from r ev have "ds = [\<lparr>player = ''B'', pvalue = 2\<rparr>, \<lparr>player = ''A'', pvalue = 1\<rparr>,
                 \<lparr>player = ''C'', pvalue = 1\<rparr>]" by simp
  with s ev show ?thesis by simp
qed

section \<open>Properties of the calendar\<close>

lemma cellsFrom_map:
  "cellsFrom counts y m s n d = map (cellAt counts y m s) [d..n]"
proof (induction counts y m s n d rule: cellsFrom.induct)
  case (1 counts y m s n d)
  show ?case
  proof (cases "d \<le> n")
    case True
    then have "cellsFrom counts y m s n d
        = cellAt counts y m s d # map (cellAt counts y m s) [d + 1..n]"
      using "1.IH" by (simp add: cellsFrom.simps [of counts y m s n d])
    also have "\<dots> = map (cellAt counts y m s) [d..n]"
      using True by (simp add: upto_rec1)
    finally show ?thesis .
  next
    case False
    then show ?thesis by (simp add: cellsFrom.simps [of counts y m s n d])
  qed
qed

lemma getTimes_Inr: "getTimes es = Inr ks \<Longrightarrow> map Date es = map Some ks"
  by (induction es arbitrary: ks) (auto split: option.splits sum.splits)

lemma drawCalendar_Some:
  assumes "drawCalendar entries = Inr (Some l)"
  obtains e0 es first ks where "entries = e0 # es" "Date e0 = Some first"
    "map Date entries = map Some ks"
    "l = \<lparr>cal_year = getFullYear first, cal_month = getMonth first,
          cal_daysInMonth = getDate (newDate (getFullYear first) (getMonth first + 1) 0),
          cal_startDay = getDay (newDate (getFullYear first) (getMonth first) 1),
          cal_rows = - ((- (getDay (newDate (getFullYear first) (getMonth first) 1)
                     + getDate (newDate (getFullYear first) (getMonth first + 1) 0))) div 7),
          cal_maxCount = (case d3max (map snd (rollupCount ks)) of
                        None \<Rightarrow> 1 | Some m \<Rightarrow> if m = 0 then 1 else m),
          cal_cells = map (cellAt (rollupCount ks) (getFullYear first) (getMonth first)
                         (getDay (newDate (getFullYear first) (getMonth first) 1)))
                    [1..getDate (newDate (getFullYear first) (getMonth first + 1) 0)]\<rparr>"
proof -
  from assms obtain e0 es where en: "entries = e0 # es"
    by (cases entries) (auto simp add: drawCalendar_def)
  from assms en obtain ks where ks: "getTimes entries = Inr ks"
    by (cases "getTimes entries") (auto simp add: drawCalendar_def)
  from assms en ks obtain first where f: "Date e0 = Some first"
    by (cases "Date e0") (auto simp add: drawCalendar_def)
  from assms en ks f have "l = \<lparr>cal_year = getFullYear first, cal_month = getMonth first,
          cal_daysInMonth = getDate (newDate (getFullYear first) (getMonth first + 1) 0),
          cal_startDay = getDay (newDate (getFullYear first) (getMonth first) 1),
          cal_rows = - ((- (getDay (newDate (getFullYear first) (getMonth first) 1)
                     + getDate (newDate (getFullYear first) (getMonth first + 1) 0))) div 7),
          cal_maxCount = (case d3max (map snd (rollupCount ks)) of
                        None \<Rightarrow> 1 | Some m \<Rightarrow> if m = 0 then 1 else m),
          cal_cells = map (cellAt (rollupCount ks) (getFullYear first) (getMonth first)
                         (getDay (newDate (getFullYear first) (getMonth first) 1)))
                    [1..getDate (newDate (getFullYear first) (getMonth first + 1) 0)]\<rparr>"
    by (simp add: drawCalendar_def Let_def cellsFrom_map del: getTimes.simps)
  with en f getTimes_Inr [OF ks] show ?thesis by (rule that)
qed

text \<open>
  Claim C4, as amended. When the calendar is drawn, the list of entries is not
  empty and the displayed year and month, from which the start weekday and the
  number of days are computed, are those of its first entry, in the order of the
  list.
\<close>

theorem C4_month_of_first_entry:
  assumes "drawCalendar entries = Inr (Some l)"
  shows "\<exists>e0 es first. entries = e0 # es \<and> Date e0 = Some first
     \<and> cal_year l = getFullYear first \<and> cal_month l = getMonth first
     \<and> cal_startDay l = getDay (newDate (cal_year l) (cal_month l) 1)
     \<and> cal_daysInMonth l = getDate (newDate (cal_year l) (cal_month l + 1) 0)"
  using assms by (rule drawCalendar_Some) simp

theorem C4_witness:
  "drawCalendar [\<lparr>Date = Some 20120, Person = ''A'', Game = ''Go''\<rparr>,
                 \<lparr>Date = Some 20119, Person = ''A'', Game = ''Chess''\<rparr>]
   = Inr (Some \<lparr>cal_year = 2025, cal_month = 1, cal_daysInMonth = 28, cal_startDay = 6, cal_rows = 5,
               cal_maxCount = 1,
               cal_cells = map (\<lambda>d. \<lparr>cell_day = d, row = (5 + d) div 7, col = (5 + d) mod 7,
                                   cell_count = if d = 1 then 1 else 0\<rparr>) [1..28]\<rparr>)
   \<and> getFullYear 20120 = 2025 \<and> getMonth 20120 = 1"
proof -
  have ev: "drawCalendar [\<lparr>Date = Some 20120, Person = ''A'', Game = ''Go''\<rparr>,
                 \<lparr>Date = Some 20119, Person = ''A'', Game = ''Chess''\<rparr>]
   = Inr (Some \<lparr>cal_year = 2025, cal_month = 1, cal_daysInMonth = 28, cal_startDay = 6, cal_rows = 5,
               cal_maxCount = 1,
               cal_cells = map (\<lambda>d. \<lparr>cell_day = d, row = (5 + d) div 7, col = (5 + d) mod 7,
                                   cell_count = if d = 1 then 1 else 0\<rparr>) [1..28]\<rparr>)"
    by code_simp
  from C4_month_of_first_entry [OF ev] ev show ?thesis by simp
qed

text \<open>
  The claim as stated fails: for the entries of 1 February 2025 and 31 January
  2025, in this order, the calendar displays February 2025, and the earliest
  entry is of January.
\<close>

theorem C4_counterexample:
  "displayedMonth [\<lparr>Date = Some 20120, Person = ''A'', Game = ''Go''\<rparr>,
                   \<lparr>Date = Some 20119, Person = ''A'', Game = ''Chess''\<rparr>] = Some (2025, 1)
   \<and> Min {20120, 20119} = (20119::int)
   \<and> (getFullYear 20119, getMonth 20119) = (2025, 0)"
  by code_simp


lemma cells_of_layout:
  assumes "drawCalendar entries = Inr (Some l)"
  shows "\<exists>counts. cal_cells l = map (cellAt counts (cal_year l) (cal_month l) (cal_startDay l)) [1..cal_daysInMonth l]"
  using assms by (rule drawCalendar_Some) auto

lemma startDay_range:
  assumes "drawCalendar entries = Inr (Some l)"
  shows "0 \<le> cal_startDay l \<and> cal_startDay l \<le> 6"
  using assms by (rule drawCalendar_Some) (simp add: getDay_def WeekDay_def)

lemma slot_inj: "inj_on (\<lambda>d. ((s + (d - 1)) div 7, (s + (d - 1)) mod (7::int))) A"
proof (rule inj_onI)
  fix x y :: int
  assume "((s + (x - 1)) div 7, (s + (x - 1)) mod 7) = ((s + (y - 1)) div 7, (s + (y - 1)) mod 7)"
  then have e: "(s + (x - 1)) div 7 = (s + (y - 1)) div 7"
      "(s + (x - 1)) mod 7 = (s + (y - 1)) mod 7"
    by simp_all
  have "s + (x - 1) = (s + (x - 1)) div 7 * 7 + (s + (x - 1)) mod 7"
    by (rule div_mult_mod_eq [symmetric])
  also have "\<dots> = (s + (y - 1)) div 7 * 7 + (s + (y - 1)) mod 7"
    by (simp only: e)
  also have "\<dots> = s + (y - 1)"
    by (rule div_mult_mod_eq)
  finally show "x = y" by simp
qed

subsection \<open>The placement of the cells\<close>

lemma monthLength_table:
  assumes "0 \<le> m" "m \<le> 11"
  shows "monthLength y m =
     (if m = 1 then (if InLeapYear y then 29 else 28)
      else if m = 3 \<or> m = 5 \<or> m = 8 \<or> m = 10 then 30 else 31)"
  using month_cases [OF assms]
  by (elim disjE) (simp_all add: monthLength_def monthStart_simps)

lemma layout_month:
  assumes "drawCalendar entries = Inr (Some l)"
  shows "0 \<le> cal_month l \<and> cal_month l \<le> 11
     \<and> cal_startDay l =
         WeekDay (MakeDay (if 0 \<le> cal_year l \<and> cal_year l \<le> 99 then 1900 + cal_year l
                           else cal_year l) (cal_month l) 1)
     \<and> cal_daysInMonth l =
         monthLength (if 0 \<le> cal_year l \<and> cal_year l \<le> 99 then 1900 + cal_year l
                      else cal_year l) (cal_month l)"
  using assms
proof (rule drawCalendar_Some)
  fix e0 es first ks
  assume l: "l = \<lparr>cal_year = getFullYear first, cal_month = getMonth first,
          cal_daysInMonth = getDate (newDate (getFullYear first) (getMonth first + 1) 0),
          cal_startDay = getDay (newDate (getFullYear first) (getMonth first) 1),
          cal_rows = - ((- (getDay (newDate (getFullYear first) (getMonth first) 1)
                     + getDate (newDate (getFullYear first) (getMonth first + 1) 0))) div 7),
          cal_maxCount = (case d3max (map snd (rollupCount ks)) of
                        None \<Rightarrow> 1 | Some m \<Rightarrow> if m = 0 then 1 else m),
          cal_cells = map (cellAt (rollupCount ks) (getFullYear first) (getMonth first)
                         (getDay (newDate (getFullYear first) (getMonth first) 1)))
                    [1..getDate (newDate (getFullYear first) (getMonth first + 1) 0)]\<rparr>"
  have m: "0 \<le> getMonth first" "getMonth first \<le> 11"
    using MonthFromTime_range [of first] by (simp_all add: getMonth_def)
  show ?thesis
    unfolding l using m days_in_month [OF m]
    by (simp add: getDate_def getDay_def newDate_def)
qed

text \<open>
  Claim C7. In every drawn calendar the displayed month is between 0 and 11;
  the start weekday is the weekday of the first day of the displayed month, a
  number between 0 and 6; \<open>daysInMonth\<close> is the length of the displayed month
  (28 or 29 days for February, 30 for April, June, September and November, 31
  for the others); there is exactly one cell for each day from 1 to
  \<open>daysInMonth\<close>, in this order; the cell of a day is in row
  \<open>(startDay + day - 1) div 7\<close> and column \<open>(startDay + day - 1) mod 7\<close>, so
  that \<open>row * 7 + col = startDay + day - 1\<close>; and no two cells share their row
  and column. The year \<open>y\<close> of the displayed month is the displayed year as
  \<open>new Date(year, month, day)\<close> reads it.
\<close>

theorem C7_cell_placement:
  assumes "drawCalendar entries = Inr (Some l)"
  shows "(let y = (if 0 \<le> cal_year l \<and> cal_year l \<le> 99 then 1900 + cal_year l
                   else cal_year l)
          in 0 \<le> cal_month l \<and> cal_month l \<le> 11
           \<and> cal_startDay l = WeekDay (MakeDay y (cal_month l) 1)
           \<and> cal_daysInMonth l = monthLength y (cal_month l)
           \<and> cal_daysInMonth l =
               (if cal_month l = 1 then (if InLeapYear y then 29 else 28)
                else if cal_month l = 3 \<or> cal_month l = 5 \<or> cal_month l = 8
                        \<or> cal_month l = 10 then 30 else 31))
     \<and> 0 \<le> cal_startDay l \<and> cal_startDay l \<le> 6
     \<and> map cell_day (cal_cells l) = [1..cal_daysInMonth l]
     \<and> (\<forall>c\<in>set (cal_cells l).
           row c = (cal_startDay l + cell_day c - 1) div 7
         \<and> col c = (cal_startDay l + cell_day c - 1) mod 7
         \<and> row c * 7 + col c = cal_startDay l + cell_day c - 1)
     \<and> distinct (map (\<lambda>c. (row c, col c)) (cal_cells l))"
proof -
  define y where "y = (if 0 \<le> cal_year l \<and> cal_year l \<le> 99 then 1900 + cal_year l
                       else cal_year l)"
  from layout_month [OF assms] have m: "0 \<le> cal_month l" "cal_month l \<le> 11"
    and sd: "cal_startDay l = WeekDay (MakeDay y (cal_month l) 1)"
    and dm: "cal_daysInMonth l = monthLength y (cal_month l)"
    by (simp_all add: y_def)
  have tb: "cal_daysInMonth l =
               (if cal_month l = 1 then (if InLeapYear y then 29 else 28)
                else if cal_month l = 3 \<or> cal_month l = 5 \<or> cal_month l = 8
                        \<or> cal_month l = 10 then 30 else 31)"
    unfolding dm by (rule monthLength_table [OF m])
  have month: "(let y = (if 0 \<le> cal_year l \<and> cal_year l \<le> 99 then 1900 + cal_year l
                   else cal_year l)
          in 0 \<le> cal_month l \<and> cal_month l \<le> 11
           \<and> cal_startDay l = WeekDay (MakeDay y (cal_month l) 1)
           \<and> cal_daysInMonth l = monthLength y (cal_month l)
           \<and> cal_daysInMonth l =
               (if cal_month l = 1 then (if InLeapYear y then 29 else 28)
                else if cal_month l = 3 \<or> cal_month l = 5 \<or> cal_month l = 8
                        \<or> cal_month l = 10 then 30 else 31))"
    unfolding Let_def y_def [symmetric] using m sd dm tb by (intro conjI)
  from cells_of_layout [OF assms] obtain counts
    where c: "cal_cells l = map (cellAt counts (cal_year l) (cal_month l) (cal_startDay l)) [1..cal_daysInMonth l]"
    by blast
  have days: "map cell_day (cal_cells l) = [1..cal_daysInMonth l]"
    unfolding c by (simp add: cellAt_def Let_def comp_def)
  have pos: "\<forall>c\<in>set (cal_cells l).
           row c = (cal_startDay l + cell_day c - 1) div 7
         \<and> col c = (cal_startDay l + cell_day c - 1) mod 7
         \<and> row c * 7 + col c = cal_startDay l + cell_day c - 1"
    unfolding c by (auto simp add: cellAt_def Let_def algebra_simps)
  have "map (\<lambda>c. (row c, col c)) (cal_cells l)
      = map (\<lambda>d. ((cal_startDay l + (d - 1)) div 7, (cal_startDay l + (d - 1)) mod 7)) [1..cal_daysInMonth l]"
    unfolding c by (simp add: cellAt_def Let_def comp_def)
  then have dist: "distinct (map (\<lambda>c. (row c, col c)) (cal_cells l))"
    by (simp add: distinct_map slot_inj)
  from startDay_range [OF assms] have rg: "0 \<le> cal_startDay l" "cal_startDay l \<le> 6"
    by simp_all
  from month rg days pos dist show ?thesis by (intro conjI)
qed

theorem C7_witness:
  "drawCalendar [\<lparr>Date = Some 20120, Person = ''A'', Game = ''Go''\<rparr>]
   = Inr (Some \<lparr>cal_year = 2025, cal_month = 1, cal_daysInMonth = 28, cal_startDay = 6, cal_rows = 5,
               cal_maxCount = 1,
               cal_cells = map (\<lambda>d. \<lparr>cell_day = d, row = (5 + d) div 7, col = (5 + d) mod 7,
                                   cell_count = if d = 1 then 1 else 0\<rparr>) [1..28]\<rparr>)
   \<and> WeekDay (MakeDay 2025 1 1) = 6 \<and> monthLength 2025 1 = 28 \<and> \<not> InLeapYear 2025
   \<and> distinct (map (\<lambda>d. ((5 + d) div 7, (5 + d) mod 7)) [1..28::int])"
proof -
  have ev: "drawCalendar [\<lparr>Date = Some 20120, Person = ''A'', Game = ''Go''\<rparr>]
   = Inr (Some \<lparr>cal_year = 2025, cal_month = 1, cal_daysInMonth = 28, cal_startDay = 6, cal_rows = 5,
               cal_maxCount = 1,
               cal_cells = map (\<lambda>d. \<lparr>cell_day = d, row = (5 + d) div 7, col = (5 + d) mod 7,
                                   cell_count = if d = 1 then 1 else 0\<rparr>) [1..28]\<rparr>)"
    by code_simp
  note th = C7_cell_placement [OF ev]
  from th have "distinct (map (\<lambda>c. (row c, col c))
       (map (\<lambda>d. \<lparr>cell_day = d, row = (5 + d) div 7, col = (5 + d) mod 7,
                                   cell_count = if d = 1 then 1 else (0::nat)\<rparr>) [1..28]))"
    by simp
  then have d: "distinct (map (\<lambda>d. ((5 + d) div 7, (5 + d) mod 7)) [1..28::int])"
    by (simp add: comp_def)
  from th have w: "WeekDay (MakeDay 2025 1 1) = 6" and ml: "monthLength 2025 1 = 28"
    by (simp_all add: Let_def)
  have lp: "\<not> InLeapYear 2025" by (simp add: InLeapYear_def)
  from ev d w ml lp show ?thesis by (intro conjI)
qed


subsection \<open>The counts of \<open>d3.rollup\<close> and the cells\<close>

lemma map_of_rollupAdd:
  "map_of (rollupAdd acc k) t =
     (if t = k then Some (case map_of acc k of None \<Rightarrow> 1 | Some c \<Rightarrow> c + 1) else map_of acc t)"
  by (induction acc) auto

lemma map_of_foldl_rollupAdd:
  "map_of (foldl rollupAdd acc ks) t =
     (case map_of acc t of
        None \<Rightarrow> if t \<in> set ks then Some (length (filter (\<lambda>k. k = t) ks)) else None
      | Some c \<Rightarrow> Some (c + length (filter (\<lambda>k. k = t) ks)))"
proof (induction ks arbitrary: acc)
  case Nil
  show ?case by (simp split: option.splits)
next
  case (Cons k ks)
  show ?case
    by (simp add: Cons.IH map_of_rollupAdd split: option.splits)
qed

lemma map_of_rollupCount:
  "map_of (rollupCount ks) t =
     (if t \<in> set ks then Some (length (filter (\<lambda>k. k = t) ks)) else None)"
  by (simp add: rollupCount_def map_of_foldl_rollupAdd)

lemma rollupAdd_keys: "set (map fst (rollupAdd acc k)) = insert k (set (map fst acc))"
proof (induction acc)
  case Nil
  show ?case by simp
next
  case (Cons p acc)
  obtain k' n where p: "p = (k', n)" by (cases p)
  show ?case
  proof (cases "k' = k")
    case True
    then show ?thesis by (simp add: p)
  next
    case False
    then have "set (map fst (rollupAdd (p # acc) k))
        = insert k' (set (map fst (rollupAdd acc k)))"
      by (simp add: p)
    also have "\<dots> = insert k' (insert k (set (map fst acc)))"
      by (simp only: Cons.IH)
    also have "\<dots> = insert k (set (map fst (p # acc)))"
      by (simp add: p insert_commute)
    finally show ?thesis .
  qed
qed

lemma rollupAdd_distinct: "distinct (map fst acc) \<Longrightarrow> distinct (map fst (rollupAdd acc k))"
proof (induction acc)
  case Nil
  show ?case by simp
next
  case (Cons p acc)
  obtain k' n where p: "p = (k', n)" by (cases p)
  show ?case
  proof (cases "k' = k")
    case True
    with Cons.prems p show ?thesis by simp
  next
    case False
    have "k' \<notin> set (map fst (rollupAdd acc k))"
      unfolding rollupAdd_keys using Cons.prems p False by simp
    with Cons p False show ?thesis by simp
  qed
qed

lemma foldl_rollupAdd_distinct:
  "distinct (map fst acc) \<Longrightarrow> distinct (map fst (foldl rollupAdd acc ks))"
  by (induction ks arbitrary: acc) (simp_all add: rollupAdd_distinct)

lemma rollupCount_values:
  "set (map snd (rollupCount ks)) = (\<lambda>t. length (filter (\<lambda>k. k = t) ks)) ` set ks"
proof -
  have d: "distinct (map fst (rollupCount ks))"
    by (simp add: rollupCount_def foldl_rollupAdd_distinct)
  have iff: "(t, c) \<in> set (rollupCount ks) \<longleftrightarrow> t \<in> set ks \<and> c = length (filter (\<lambda>k. k = t) ks)"
    for t c
  proof -
    have "(t, c) \<in> set (rollupCount ks) \<longleftrightarrow> map_of (rollupCount ks) t = Some c"
      using map_of_eq_Some_iff [OF d, of t c] by simp
    then show ?thesis by (auto simp add: map_of_rollupCount)
  qed
  show ?thesis
  proof (intro set_eqI iffI)
    fix c assume "c \<in> set (map snd (rollupCount ks))"
    then obtain t where "(t, c) \<in> set (rollupCount ks)" by auto
    with iff show "c \<in> (\<lambda>t. length (filter (\<lambda>k. k = t) ks)) ` set ks" by simp
  next
    fix c assume "c \<in> (\<lambda>t. length (filter (\<lambda>k. k = t) ks)) ` set ks"
    then obtain t where "t \<in> set ks" "c = length (filter (\<lambda>k. k = t) ks)" by auto
    with iff have "(t, c) \<in> set (rollupCount ks)" by simp
    then have "snd (t, c) \<in> snd ` set (rollupCount ks)" by (rule imageI)
    then show "c \<in> set (map snd (rollupCount ks))" by simp
  qed
qed

lemma d3max_fold: "foldl maxStep (Some m) vs = Some (fold max vs m)"
proof (induction vs arbitrary: m)
  case Nil
  show ?case by simp
next
  case (Cons v vs)
  have "(if m < v then v else m) = max v m" by (simp add: max_def)
  then show ?case using Cons.IH by simp
qed

lemma d3max_Max: "vs \<noteq> [] \<Longrightarrow> d3max vs = Some (Max (set vs))"
proof -
  assume "vs \<noteq> []"
  then obtain v vs' where vs: "vs = v # vs'" by (cases vs) auto
  have "Max (set vs) = fold max vs' v" unfolding vs by (rule Max.set_eq_fold)
  then show ?thesis by (simp add: d3max_def vs d3max_fold)
qed

lemma count_by_time:
  assumes "map Date entries = map Some ks"
  shows "length (filter (\<lambda>k. k = t) ks) = length (filter (\<lambda>e. Date e = Some t) entries)"
proof -
  have "length (filter (\<lambda>e. Date e = Some t) entries)
      = length (filter (\<lambda>x. x = Some t) (map Date entries))"
    by (simp add: filter_map comp_def)
  also have "\<dots> = length (filter (\<lambda>k. k = t) ks)"
    unfolding assms by (simp add: filter_map comp_def)
  finally show ?thesis by simp
qed

lemma cell_count_by_time:
  assumes "map Date entries = map Some ks"
  shows "cell_count (cellAt (rollupCount ks) y m s d)
     = length (filter (\<lambda>e. Date e = Some (newDate y m d)) entries)"
proof -
  have "(case map_of (rollupCount ks) t of None \<Rightarrow> 0 | Some c \<Rightarrow> c)
      = length (filter (\<lambda>k. k = t) ks)" for t
    by (auto simp add: map_of_rollupCount filter_empty_conv)
  then show ?thesis
    by (simp add: cellAt_def Let_def count_by_time [OF assms])
qed

lemma maxCount_all_days:
  assumes "drawCalendar entries = Inr (Some l)"
  shows "cal_maxCount l
     = Max ((\<lambda>t. length (filter (\<lambda>e. Date e = Some t) entries)) ` {t. Some t \<in> Date ` set entries})"
  using assms
proof (rule drawCalendar_Some)
  fix e0 es first ks
  assume en: "entries = e0 # es" and ks: "map Date entries = map Some ks"
    and l: "l = \<lparr>cal_year = getFullYear first, cal_month = getMonth first,
          cal_daysInMonth = getDate (newDate (getFullYear first) (getMonth first + 1) 0),
          cal_startDay = getDay (newDate (getFullYear first) (getMonth first) 1),
          cal_rows = - ((- (getDay (newDate (getFullYear first) (getMonth first) 1)
                     + getDate (newDate (getFullYear first) (getMonth first + 1) 0))) div 7),
          cal_maxCount = (case d3max (map snd (rollupCount ks)) of
                        None \<Rightarrow> 1 | Some m \<Rightarrow> if m = 0 then 1 else m),
          cal_cells = map (cellAt (rollupCount ks) (getFullYear first) (getMonth first)
                         (getDay (newDate (getFullYear first) (getMonth first) 1)))
                    [1..getDate (newDate (getFullYear first) (getMonth first + 1) 0)]\<rparr>"
  let ?n = "\<lambda>t. length (filter (\<lambda>e. Date e = Some t) entries)"
  have kne: "ks \<noteq> []" using en ks by auto
  have sks: "set ks = {t. Some t \<in> Date ` set entries}"
  proof -
    have "Some ` set ks = Date ` set entries"
      using arg_cong [OF ks, of set] by simp
    then show ?thesis by (auto simp add: image_iff)
  qed
  have vals: "set (map snd (rollupCount ks)) = ?n ` set ks"
    unfolding rollupCount_values
    by (rule image_cong) (simp_all add: count_by_time [OF ks])
  have ne: "map snd (rollupCount ks) \<noteq> []"
    using vals kne by (metis image_is_empty set_empty)
  have mx: "d3max (map snd (rollupCount ks)) = Some (Max (?n ` set ks))"
    using d3max_Max [OF ne] vals by simp
  have "0 < Max (?n ` set ks)"
  proof -
    obtain k where k: "k \<in> set ks" using kne by (cases ks) auto
    then have "Some k \<in> Date ` set entries" using sks by simp
    then obtain e where "e \<in> set entries" "Date e = Some k" by auto
    then have "0 < ?n k" by (auto simp add: filter_empty_conv)
    moreover have "?n k \<le> Max (?n ` set ks)" using k by simp
    ultimately show ?thesis by (rule less_le_trans)
  qed
  with mx have "cal_maxCount l = Max (?n ` set ks)" by (simp add: l)
  then show ?thesis by (simp only: sks)
qed


subsection \<open>The counts of the cells\<close>

text \<open>
  When the year of the first entry is not from 0 to 99, the count of every cell is
  the number of entries whose date has the displayed year and month and the day
  of the cell, so an entry of another month is in no count; and \<open>maxCount\<close> is the
  greatest number of entries on one day, over the days of all entries
  (\<open>maxCount_all_days\<close>).
\<close>

lemma date_fields_iff:
  assumes "0 \<le> m" "m \<le> 11" "1 \<le> d" "d \<le> monthLength y m"
  shows "t = MakeDay y m d \<longleftrightarrow> getFullYear t = y \<and> getMonth t = m \<and> getDate t = d"
proof
  assume "t = MakeDay y m d"
  with MakeDay_in_month [OF assms] show "getFullYear t = y \<and> getMonth t = m \<and> getDate t = d"
    by (simp add: getFullYear_def getMonth_def getDate_def)
next
  assume "getFullYear t = y \<and> getMonth t = m \<and> getDate t = d"
  with MakeDay_fields [of t] show "t = MakeDay y m d"
    by (simp add: getFullYear_def getMonth_def getDate_def)
qed

lemma calendar_counts_by_fields:
  assumes "drawCalendar entries = Inr (Some l)" and "\<not> (0 \<le> cal_year l \<and> cal_year l \<le> 99)"
  shows "\<forall>c\<in>set (cal_cells l). cell_count c =
     length (filter (\<lambda>e. \<exists>t. Date e = Some t \<and> getFullYear t = cal_year l
                            \<and> getMonth t = cal_month l \<and> getDate t = cell_day c) entries)"
  using assms(1)
proof (rule drawCalendar_Some)
  fix e0 es first ks
  assume ks: "map Date entries = map Some ks"
    and l: "l = \<lparr>cal_year = getFullYear first, cal_month = getMonth first,
          cal_daysInMonth = getDate (newDate (getFullYear first) (getMonth first + 1) 0),
          cal_startDay = getDay (newDate (getFullYear first) (getMonth first) 1),
          cal_rows = - ((- (getDay (newDate (getFullYear first) (getMonth first) 1)
                     + getDate (newDate (getFullYear first) (getMonth first + 1) 0))) div 7),
          cal_maxCount = (case d3max (map snd (rollupCount ks)) of
                        None \<Rightarrow> 1 | Some m \<Rightarrow> if m = 0 then 1 else m),
          cal_cells = map (cellAt (rollupCount ks) (getFullYear first) (getMonth first)
                         (getDay (newDate (getFullYear first) (getMonth first) 1)))
                    [1..getDate (newDate (getFullYear first) (getMonth first + 1) 0)]\<rparr>"
  let ?y = "getFullYear first" and ?m = "getMonth first"
  have y: "cal_year l = ?y" and mo: "cal_month l = ?m" by (simp_all add: l)
  have m: "0 \<le> ?m" "?m \<le> 11"
    using MonthFromTime_range [of first] by (simp_all add: getMonth_def)
  have nd: "newDate ?y mm dd = MakeDay ?y mm dd" for mm dd
    using assms(2) y by (auto simp add: newDate_def)
  have dim: "getDate (newDate ?y (?m + 1) 0) = monthLength ?y ?m"
    by (simp add: nd getDate_def days_in_month [OF m])
  show ?thesis
  proof
    fix c assume "c \<in> set (cal_cells l)"
    then obtain d where d: "1 \<le> d" "d \<le> monthLength ?y ?m"
        and c: "c = cellAt (rollupCount ks) ?y ?m (getDay (newDate ?y ?m 1)) d"
      by (auto simp add: l dim)
    have cd: "cell_day c = d" by (simp add: c cellAt_def Let_def)
    have "cell_count c = length (filter (\<lambda>e. Date e = Some (MakeDay ?y ?m d)) entries)"
      unfolding c by (simp add: cell_count_by_time [OF ks] nd)
    also have "\<dots> = length (filter (\<lambda>e. \<exists>t. Date e = Some t \<and> getFullYear t = ?y
                            \<and> getMonth t = ?m \<and> getDate t = d) entries)"
    proof -
      have "(Date e = Some (MakeDay ?y ?m d)) \<longleftrightarrow>
            (\<exists>t. Date e = Some t \<and> getFullYear t = ?y \<and> getMonth t = ?m \<and> getDate t = d)"
        for e :: Entry
        using date_fields_iff [OF m d] by (cases "Date e") auto
      then show ?thesis by simp
    qed
    finally show "cell_count c =
     length (filter (\<lambda>e. \<exists>t. Date e = Some t \<and> getFullYear t = cal_year l
                            \<and> getMonth t = cal_month l \<and> getDate t = cell_day c) entries)"
      by (simp only: y mo cd)
  qed
qed


text \<open>
  Claim C10 at an entry of a year from 0 to 99. The text \<open>1/5/25\<close> parses to
  5 January of the year 25. \<open>getFullYear\<close> gives 25, and \<open>new Date(25, 0, day)\<close> is
  a day of January 1925: the calendar has the 31 cells of January 1925 and every
  count is 0, also that of day 5, on which the entry is.
\<close>

theorem C10_two_digit_year:
  "timeParse ''1/5/25'' = Some (- 710392)
   \<and> (getFullYear (- 710392), getMonth (- 710392), getDate (- 710392)) = (25, 0, 5)
   \<and> drawCalendar [\<lparr>Date = Some (- 710392), Person = ''A'', Game = ''Chess''\<rparr>]
     = Inr (Some \<lparr>cal_year = 25, cal_month = 0, cal_daysInMonth = 31, cal_startDay = 4, cal_rows = 5,
                 cal_maxCount = 1,
                 cal_cells = map (\<lambda>d. \<lparr>cell_day = d, row = (3 + d) div 7, col = (3 + d) mod 7,
                                     cell_count = 0\<rparr>) [1..31]\<rparr>)"
  by code_simp

section \<open>Properties of the pie layout\<close>

lemma arcsFrom_data: "map arc_data (arcsFrom k pa p i a0 ds) = ds"
  by (induction ds arbitrary: i a0) (simp_all add: Let_def)

lemma arcsFrom_length: "length (arcsFrom k pa p i a0 ds) = length ds"
  by (induction ds arbitrary: i a0) (simp_all add: Let_def)

lemma arcsFrom_index: "map arc_index (arcsFrom k pa p i a0 ds) = [i..<i + length ds]"
proof (induction ds arbitrary: i a0)
  case Nil
  show ?case by simp
next
  case (Cons d ds)
  have "i < i + length (d # ds)" by simp
  then have "[i..<i + length (d # ds)] = i # [Suc i..<i + length (d # ds)]"
    by (rule upt_conv_Cons)
  moreover have "i + length (d # ds) = Suc i + length ds" by simp
  ultimately have "[i..<i + length (d # ds)] = i # [Suc i..<Suc i + length ds]"
    by (simp only:)
  moreover have "map arc_index (arcsFrom k pa p i a0 (d # ds))
      = i # map arc_index (arcsFrom k pa p (Suc i)
            (a0 + (if real (gvalue d) > 0 then real (gvalue d) * k else 0) + pa) ds)"
    by (simp add: Let_def)
  ultimately show ?case by (simp only: Cons.IH)
qed

lemma arcsFrom_span:
  "a \<in> set (arcsFrom k 0 p i a0 ds) \<Longrightarrow>
     endAngle a - startAngle a = real (gvalue (arc_data a)) * k"
proof (induction ds arbitrary: i a0)
  case Nil
  then show ?case by simp
next
  case (Cons d ds)
  then show ?case by (auto simp add: Let_def)
qed

lemma arcsFrom_start: "ds \<noteq> [] \<Longrightarrow> startAngle (arcsFrom k pa p i a0 ds ! 0) = a0"
  by (cases ds) (simp_all add: Let_def)

lemma arcsFrom_contiguous:
  "Suc j < length ds \<Longrightarrow>
     startAngle (arcsFrom k pa p i a0 ds ! Suc j) = endAngle (arcsFrom k pa p i a0 ds ! j)"
proof (induction ds arbitrary: i a0 j)
  case Nil
  then show ?case by simp
next
  case (Cons d ds)
  show ?case
  proof (cases j)
    case 0
    with Cons.prems obtain d' ds' where "ds = d' # ds'" by (cases ds) auto
    with 0 show ?thesis by (simp add: Let_def)
  next
    case (Suc j')
    with Cons.prems have "Suc j' < length ds" by simp
    from Cons.IH [OF this] Suc show ?thesis by (simp add: Let_def)
  qed
qed

lemma arcsFrom_total:
  "sum_list (map (\<lambda>a. endAngle a - startAngle a) (arcsFrom k 0 p i a0 ds))
     = real (sum_list (map gvalue ds)) * k"
proof (induction ds arbitrary: i a0)
  case Nil
  show ?case by simp
next
  case (Cons d ds)
  then show ?case by (simp add: Let_def algebra_simps)
qed

lemma pie_arcsFrom:
  assumes "0 < sum_list (map gvalue dat)"
  shows "pie dat = arcsFrom (2 * pi / real (sum_list (map gvalue dat))) 0 0 0 0 dat"
proof -
  define s where "s = sum_list (map gvalue dat)"
  have "0 < s" using assms by (simp only: s_def)
  then have s0: "real s \<noteq> 0" by simp
  have t: "0 < tau" by (simp add: tau_def)
  have da: "min tau (max (- tau) (tau - 0)) = tau" using t by simp
  have "0 \<le> \<bar>tau\<bar> / real (length dat)" by simp
  then have p: "min (\<bar>tau\<bar> / real (length dat)) 0 = 0" by (rule min_absorb2)
  have f: "(if real (gvalue d) > 0 then real (gvalue d) else 0) = real (gvalue d)"
    for d :: AggregatedCount
    by simp
  have "sum_list (map (\<lambda>d. real (gvalue d)) dat) = sum_list (map real (map gvalue dat))"
    by (simp add: comp_def)
  also have "\<dots> = real s"
    unfolding s_def by (rule sum_list_of_nat)
  finally have sm: "sum_list (map (\<lambda>d. if real (gvalue d) > 0 then real (gvalue d) else 0) dat)
      = real s"
    by (simp only: f)
  have "pie dat = arcsFrom (tau / real s) 0 0 0 0 dat"
    unfolding pie_def Let_def da p sm using s0 by simp
  then show ?thesis by (simp add: tau_def s_def)
qed

text \<open>
  Claim C5. For every non-empty list of aggregated counts of positive total (the
  counts of a grouping are positive, so the total of a non-empty list is), the
  pie layout returns one arc per element, in the order of the input; the first
  arc starts at 0 and every other arc starts where the one before ends; the span
  of an arc is \<open>2\<pi> * value / total\<close>; and the spans add up to \<open>2\<pi>\<close>. The witness
  is the layout of Chess 2, Go 1: Chess from 0 to \<open>4\<pi>/3\<close>, Go from \<open>4\<pi>/3\<close> to
  \<open>2\<pi>\<close>.
\<close>

theorem C5_pie_spans:
  assumes "dat \<noteq> []" and "0 < sum_list (map gvalue dat)"
  shows "map arc_data (pie dat) = dat
     \<and> map arc_index (pie dat) = [0..<length dat]
     \<and> startAngle (pie dat ! 0) = 0
     \<and> (\<forall>j. Suc j < length dat \<longrightarrow> startAngle (pie dat ! Suc j) = endAngle (pie dat ! j))
     \<and> (\<forall>a\<in>set (pie dat). endAngle a - startAngle a
           = 2 * pi * (real (gvalue (arc_data a)) / real (sum_list (map gvalue dat))))
     \<and> sum_list (map (\<lambda>a. endAngle a - startAngle a) (pie dat)) = 2 * pi"
proof -
  define s where "s = sum_list (map gvalue dat)"
  have pos: "0 < s" using assms(2) by (simp only: s_def)
  then have s0: "real s \<noteq> 0" by simp
  have pa: "pie dat = arcsFrom (2 * pi / real s) 0 0 0 0 dat"
    unfolding s_def by (rule pie_arcsFrom) (use pos in \<open>simp add: s_def\<close>)
  have c1: "map arc_data (pie dat) = dat" unfolding pa by (rule arcsFrom_data)
  have c2: "map arc_index (pie dat) = [0..<length dat]"
    unfolding pa using arcsFrom_index [of "2 * pi / real s" 0 0 0 0 dat] by simp
  have c3: "startAngle (pie dat ! 0) = 0" unfolding pa by (rule arcsFrom_start [OF assms(1)])
  have c4: "\<forall>j. Suc j < length dat \<longrightarrow> startAngle (pie dat ! Suc j) = endAngle (pie dat ! j)"
    unfolding pa by (simp add: arcsFrom_contiguous)
  have c5: "\<forall>a\<in>set (pie dat). endAngle a - startAngle a
           = 2 * pi * (real (gvalue (arc_data a)) / real s)"
    unfolding pa by (auto dest!: arcsFrom_span)
  have "sum_list (map (\<lambda>a. endAngle a - startAngle a) (pie dat)) = real s * (2 * pi / real s)"
    unfolding pa s_def by (rule arcsFrom_total)
  also have "\<dots> = 2 * pi" using s0 by simp
  finally have c6: "sum_list (map (\<lambda>a. endAngle a - startAngle a) (pie dat)) = 2 * pi" .
  from c1 c2 c3 c4 c5 c6 show ?thesis unfolding s_def by (intro conjI)
qed

theorem C5_witness:
  "pie [\<lparr>key = ''Chess'', gvalue = 2\<rparr>, \<lparr>key = ''Go'', gvalue = 1\<rparr>]
   = [\<lparr>arc_data = \<lparr>key = ''Chess'', gvalue = 2\<rparr>, arc_index = 0, arc_value = 2,
       startAngle = 0, endAngle = 4 * pi / 3, padAngle = 0\<rparr>,
      \<lparr>arc_data = \<lparr>key = ''Go'', gvalue = 1\<rparr>, arc_index = 1, arc_value = 1,
       startAngle = 4 * pi / 3, endAngle = 2 * pi, padAngle = 0\<rparr>]
   \<and> (4 * pi / 3 - 0) + (2 * pi - 4 * pi / 3) = 2 * pi"
proof -
  let ?dat = "[\<lparr>key = ''Chess'', gvalue = 2\<rparr>, \<lparr>key = ''Go'', gvalue = 1\<rparr>]"
  have h1: "?dat \<noteq> []" by simp
  have h2: "0 < sum_list (map gvalue ?dat)" by simp
  have pos: "0 < sum_list (map gvalue ?dat)" by simp
  have ev: "pie ?dat
   = [\<lparr>arc_data = \<lparr>key = ''Chess'', gvalue = 2\<rparr>, arc_index = 0, arc_value = 2,
       startAngle = 0, endAngle = 4 * pi / 3, padAngle = 0\<rparr>,
      \<lparr>arc_data = \<lparr>key = ''Go'', gvalue = 1\<rparr>, arc_index = 1, arc_value = 1,
       startAngle = 4 * pi / 3, endAngle = 2 * pi, padAngle = 0\<rparr>]"
    unfolding pie_arcsFrom [OF pos] by (simp add: Let_def)
  from C5_pie_spans [OF h1 h2] have "sum_list (map (\<lambda>a. endAngle a - startAngle a) (pie ?dat)) = 2 * pi"
    by blast
  then have "(4 * pi / 3 - 0) + (2 * pi - 4 * pi / 3) = 2 * pi"
    unfolding ev by simp
  with ev show ?thesis by simp
qed

text \<open>
  The data \<open>drawChart\<close> gives to the pie layout are of this kind: for a non-empty
  array they are not empty, every count is positive and so is the total.
\<close>

lemma drawChart_data:
  assumes "dataArray \<noteq> []"
  shows "\<exists>ch. drawChart dataArray = Some ch \<and> pc_data ch \<noteq> []
     \<and> (\<forall>d\<in>set (pc_data ch). 0 < gvalue d)
     \<and> 0 < sum_list (map gvalue (pc_data ch)) \<and> pc_arcs ch = pie (pc_data ch)"
proof -
  let ?dat = "map (\<lambda>(k, v). \<lparr>key = k, gvalue = v\<rparr>) (rollupCount dataArray)"
  have g: "map gvalue ?dat = map snd (rollupCount dataArray)"
    by (simp add: comp_def case_prod_unfold)
  have vals: "set (map gvalue ?dat) = (\<lambda>t. length (filter (\<lambda>k. k = t) dataArray)) ` set dataArray"
    unfolding g by (rule rollupCount_values)
  have ne: "?dat \<noteq> []"
  proof
    assume "?dat = []"
    then have "set (map gvalue ?dat) = {}" by simp
    with vals assms show False by simp
  qed
  have pos: "\<forall>d\<in>set ?dat. 0 < gvalue d"
  proof
    fix d assume "d \<in> set ?dat"
    then have "gvalue d \<in> gvalue ` set ?dat" by (rule imageI)
    then have "gvalue d \<in> set (map gvalue ?dat)" by (simp only: set_map)
    then obtain t where "t \<in> set dataArray" "gvalue d = length (filter (\<lambda>k. k = t) dataArray)"
      unfolding vals by auto
    then show "0 < gvalue d" by (auto simp add: filter_empty_conv)
  qed
  from ne obtain d ds where dd: "?dat = d # ds" by (cases ?dat) auto
  then have "d \<in> set ?dat" by simp
  with pos have "0 < gvalue d" by blast
  then have tot: "0 < sum_list (map gvalue ?dat)" unfolding dd by simp
  show ?thesis
    unfolding drawChart_def Let_def using assms ne pos tot by simp
qed

section \<open>Properties of the rounding\<close>

text \<open>
  \<open>floorLog2\<close> finds the binade of a positive number, so the rounding moves a
  number by at most one part in \<open>2^53\<close> of it, and it is odd: \<open>fl (- x) = - fl x\<close>.
\<close>

lemma pow2_nat: "0 \<le> n \<Longrightarrow> (2::rat) ^ nat n = 2 powi n"
  by (simp add: power_int_def)

lemma floorLog2_bounds:
  assumes "0 < x"
  shows "2 powi floorLog2 x \<le> x \<and> x < 2 powi (floorLog2 x + 1)"
proof -
  obtain a b where q: "quotient_of x = (a, b)" by (cases "quotient_of x")
  have b: "0 < b" using quotient_of_denom_pos [OF q] .
  have x: "x = of_int a / of_int b" using quotient_of_div [OF q] .
  have a: "0 < a" using assms b x by (simp add: zero_less_divide_iff)
  have la: "1 \<le> bitlen a" using a bitlen_eq_zero_iff [of a] bitlen_nonneg [of a] by linarith
  have lb: "1 \<le> bitlen b" using b bitlen_eq_zero_iff [of b] bitlen_nonneg [of b] by linarith
  from bitlen_bounds [OF a] have "2 ^ nat (bitlen a - 1) \<le> a" "a < 2 ^ nat (bitlen a)"
    by simp_all
  then have "(of_int (2 ^ nat (bitlen a - 1)) :: rat) \<le> of_int a"
      "(of_int a :: rat) < of_int (2 ^ nat (bitlen a))"
    by (simp_all only: of_int_le_iff of_int_less_iff)
  then have a1: "2 powi (bitlen a - 1) \<le> (of_int a :: rat)"
    and a2: "(of_int a :: rat) < 2 powi bitlen a"
    using la by (simp_all add: pow2_nat)
  from bitlen_bounds [OF b] have "2 ^ nat (bitlen b - 1) \<le> b" "b < 2 ^ nat (bitlen b)"
    by simp_all
  then have "(of_int (2 ^ nat (bitlen b - 1)) :: rat) \<le> of_int b"
      "(of_int b :: rat) < of_int (2 ^ nat (bitlen b))"
    by (simp_all only: of_int_le_iff of_int_less_iff)
  then have b1: "2 powi (bitlen b - 1) \<le> (of_int b :: rat)"
    and b2: "(of_int b :: rat) < 2 powi bitlen b"
    using lb by (simp_all add: pow2_nat)
  define k where "k = bitlen a - bitlen b"
  have pos: "\<And>n. 0 < (2::rat) powi n" by simp
  have "(2::rat) powi (bitlen a - 1) / 2 powi bitlen b < of_int a / of_int b"
    using b by (intro frac_less2 pos a1 b2) simp
  then have lo: "2 powi (k - 1) < x"
    unfolding x k_def by (simp add: power_int_diff)
  have "(of_int a :: rat) / of_int b < 2 powi bitlen a / 2 powi (bitlen b - 1)"
    using a by (intro frac_less pos a2 b1) simp
  then have hi: "x < 2 powi (k + 1)"
    unfolding x k_def by (simp add: power_int_diff power_int_add)
  have f: "floorLog2 x = (if x < 2 powi k then k - 1 else k)"
    by (simp add: floorLog2_def q k_def Let_def)
  show ?thesis
  proof (cases "x < 2 powi k")
    case True
    with f lo show ?thesis by simp
  next
    case False
    with f hi show ?thesis by simp
  qed
qed

lemma roundTiesToEven_close: "\<bar>of_int (roundTiesToEven q) - q\<bar> \<le> 1 / 2"
proof -
  have "of_int \<lfloor>q\<rfloor> \<le> q" "q < of_int \<lfloor>q\<rfloor> + 1" by linarith+
  then show ?thesis by (auto simp add: roundTiesToEven_def Let_def)
qed

lemma roundPos_close:
  assumes "0 < x"
  shows "\<bar>roundPos x - x\<bar> \<le> x / 2 ^ 53"
proof -
  define e where "e = floorLog2 x"
  define u :: rat where "u = 2 powi (e - 52)"
  have u: "0 < u" by (simp add: u_def)
  have "roundPos x - x = (of_int (roundTiesToEven (x / u)) - x / u) * u"
    using u by (simp add: roundPos_def e_def u_def Let_def algebra_simps)
  then have "\<bar>roundPos x - x\<bar> = \<bar>of_int (roundTiesToEven (x / u)) - x / u\<bar> * u"
    using u by (simp add: abs_mult)
  also have "\<dots> \<le> 1 / 2 * u"
    using u roundTiesToEven_close [of "x / u"] by (intro mult_right_mono) simp_all
  also have "1 / 2 * u = 2 powi e / 2 ^ 53"
    by (simp add: u_def power_int_diff)
  also have "\<dots> \<le> x / 2 ^ 53"
    using floorLog2_bounds [OF assms] by (simp add: e_def divide_right_mono)
  finally show ?thesis .
qed

lemma fl_minus: "fl (- x) = - fl x"
  by (simp add: fl_def)

lemma fl_close: "\<bar>fl x - x\<bar> \<le> \<bar>x\<bar> / 2 ^ 53"
proof -
  consider "x = 0" | "x < 0" | "0 < x" by linarith
  then show ?thesis
  proof cases
    case 1
    then show ?thesis by (simp add: fl_def)
  next
    case 2
    then have "\<bar>roundPos (- x) - (- x)\<bar> \<le> (- x) / 2 ^ 53" by (intro roundPos_close) simp
    with 2 show ?thesis by (simp add: fl_def abs_minus_commute)
  next
    case 3
    with roundPos_close [OF 3] show ?thesis by (simp add: fl_def)
  qed
qed

lemma fl_zero: "fl 0 = 0"
  by (simp add: fl_def)

lemma fl_bounds:
  assumes "0 \<le> x"
  shows "999 / 1000 * x \<le> fl x" and "fl x \<le> 1001 / 1000 * x"
proof -
  have "x / 2 ^ 53 \<le> x / 1000" using assms by (intro divide_left_mono) simp_all
  with fl_close [of x] assms have "\<bar>fl x - x\<bar> \<le> x / 1000" by simp
  then show "999 / 1000 * x \<le> fl x" and "fl x \<le> 1001 / 1000 * x" by linarith+
qed

lemma fl_nonneg: "0 \<le> x \<Longrightarrow> 0 \<le> fl x"
  using fl_bounds(1) [of x] by simp

lemma fl_nonpos: "x \<le> 0 \<Longrightarrow> fl x \<le> 0"
  using fl_nonneg [of "- x"] by (simp add: fl_minus)

lemma fl_close_bound:
  assumes "\<bar>x\<bar> \<le> b"
  shows "\<bar>fl x - x\<bar> \<le> b / 2 ^ 53"
proof -
  have "\<bar>x\<bar> / 2 ^ 53 \<le> b / 2 ^ 53" using assms by (intro divide_right_mono) simp_all
  with fl_close [of x] show ?thesis by simp
qed

lemma fl_abs_le:
  assumes "\<bar>x\<bar> \<le> b"
  shows "\<bar>fl x\<bar> \<le> 1001 / 1000 * b"
proof -
  have b: "0 \<le> b" using assms by simp
  have "b / 2 ^ 53 \<le> b / 1000" using b by (intro divide_left_mono) simp_all
  with fl_close_bound [OF assms] have "\<bar>fl x - x\<bar> \<le> b / 1000" by simp
  with assms show ?thesis by linarith
qed

section \<open>Properties of the hover resolver\<close>

text \<open>The paddings are constants; their values are computed once.\<close>

lemma paddingOuter_value: "paddingOuter = 3602879701896397 / 36028797018963968"
  by code_simp

lemma paddingInner_value: "paddingInner = 3602879701896397 / 36028797018963968"
  by (simp add: paddingInner_def paddingOuter_value)

lemma padding_twice: "fl (paddingOuter * 2) = 3602879701896397 / 18014398509481984"
  by code_simp

lemma padding_rest: "fl (1 - paddingInner) = 9 / 10 + 1 / 45035996273704960"
  by code_simp


text \<open>
  The band centers of at most \<open>2^32\<close> days (an array is not longer) on a range
  of positive width grow strictly: the step is at least \<open>3/4\<close> of \<open>width / n\<close>, every
  intermediate result is at most a few times the width, and each of the three
  roundings of a center moves it by at most that much times \<open>2^-53\<close>.
\<close>

lemma bandStep_bounds:
  assumes W: "0 < W" and n: "1 \<le> n"
  shows "0 < bandStep n W"
    and "3 / 4 * W \<le> bandStep n W * of_nat n"
    and "bandStep n W * of_nat n \<le> 6 / 5 * W"
    and "fl (of_nat n - paddingInner) \<le> 1001 / 1000 * of_nat n"
    and "0 \<le> fl (of_nat n - paddingInner)"
    and "0 \<le> fl (W - 0)" and "fl (W - 0) \<le> 1001 / 1000 * W"
proof -
  define N :: rat where "N = of_nat n"
  have N: "1 \<le> N" using n by (simp add: N_def)
  define a1 where "a1 = fl (N - paddingInner)"
  define x0 where "x0 = N - paddingInner"
  have x0: "x0 = N - 3602879701896397 / 36028797018963968"
    by (simp add: x0_def paddingInner_value)
  have "0 \<le> x0" using N x0 by linarith
  from fl_bounds [OF this] have "999 / 1000 * x0 \<le> a1" "a1 \<le> 1001 / 1000 * x0"
    by (simp_all add: a1_def x0_def)
  then have a1l: "22 / 25 * N \<le> a1" and a1u: "a1 \<le> 1001 / 1000 * N"
    using N x0 by linarith+
  define x1 where "x1 = a1 + fl (paddingOuter * 2)"
  have x1: "x1 = a1 + 3602879701896397 / 18014398509481984"
    by (simp add: x1_def padding_twice)
  define d0 where "d0 = fl x1"
  have "0 \<le> x1" using a1l N x1 by linarith
  from fl_bounds [OF this] have "999 / 1000 * x1 \<le> d0" "d0 \<le> 1001 / 1000 * x1"
    by (simp_all add: d0_def)
  then have d0l: "87 / 100 * N \<le> d0" and d0u: "d0 \<le> 13 / 10 * N"
    using a1l a1u N x1 by linarith+
  define den where "den = max 1 d0"
  have denl: "87 / 100 * N \<le> den" and denu: "den \<le> 13 / 10 * N" and den1: "1 \<le> den"
    using d0l d0u N by (simp_all add: den_def max_def)
  define w0 where "w0 = fl (W - 0)"
  have "0 \<le> W - 0" using W by simp
  from fl_bounds [OF this] have w0l: "999 / 1000 * W \<le> w0" and w0u: "w0 \<le> 1001 / 1000 * W"
    by (simp_all add: w0_def)
  define r where "r = w0 / den"
  have r0: "0 \<le> r" using w0l W den1 by (simp add: r_def)
  have rd: "r * den = w0" using den1 by (simp add: r_def)
  define rN where "rN = r * N"
  have "r * (87 / 100 * N) \<le> r * den" by (rule mult_left_mono [OF denl r0])
  then have rNu: "87 / 100 * rN \<le> w0" by (simp add: rd rN_def)
  have "r * den \<le> r * (13 / 10 * N)" by (rule mult_left_mono [OF denu r0])
  then have rNl: "w0 \<le> 13 / 10 * rN" by (simp add: rd rN_def)
  have s: "bandStep n W = fl r"
    using W by (simp add: bandStep_def r_def w0_def den_def d0_def x1_def a1_def N_def Let_def)
  from fl_bounds [OF r0] have sl: "999 / 1000 * r \<le> fl r" and su: "fl r \<le> 1001 / 1000 * r"
    by simp_all
  have N0: "0 \<le> N" using N by simp
  have "999 / 1000 * r * N \<le> fl r * N" by (rule mult_right_mono [OF sl N0])
  then have sNl: "999 / 1000 * rN \<le> fl r * N" by (simp add: rN_def)
  have "fl r * N \<le> 1001 / 1000 * r * N" by (rule mult_right_mono [OF su N0])
  then have sNu: "fl r * N \<le> 1001 / 1000 * rN" by (simp add: rN_def)
  show lo: "3 / 4 * W \<le> bandStep n W * of_nat n"
    unfolding s N_def [symmetric] using sNl rNl w0l W by linarith
  show "bandStep n W * of_nat n \<le> 6 / 5 * W"
    unfolding s N_def [symmetric] using sNu rNu w0u W by linarith
  have "0 < bandStep n W * of_nat n" using lo W by linarith
  then show "0 < bandStep n W"
    using N0 unfolding N_def by (simp add: zero_less_mult_iff)
  show "fl (of_nat n - paddingInner) \<le> 1001 / 1000 * of_nat n"
    using a1u by (simp add: a1_def N_def)
  show "0 \<le> fl (of_nat n - paddingInner)"
    using a1l N by (simp add: a1_def N_def)
  show "0 \<le> fl (W - 0)" using w0l W by (simp add: w0_def)
  show "fl (W - 0) \<le> 1001 / 1000 * W" using w0u by (simp add: w0_def)
qed

lemma band_magnitudes:
  assumes W: "0 < W" and n: "1 \<le> n"
  shows "\<bar>bandStart n W\<bar> \<le> W" and "\<bar>fl (bandwidth n W / 2)\<bar> \<le> W"
proof -
  define N :: rat where "N = of_nat n"
  define s where "s = bandStep n W"
  define a1 where "a1 = fl (N - paddingInner)"
  define w0 where "w0 = fl (W - 0)"
  have b1: "0 < s" and b3: "s * N \<le> 6 / 5 * W" and b4: "a1 \<le> 1001 / 1000 * N"
    and b5: "0 \<le> a1" and b6: "0 \<le> w0" and b7: "w0 \<le> 1001 / 1000 * W"
    using bandStep_bounds [OF W n] by (simp_all add: N_def s_def a1_def w0_def)
  have N: "1 \<le> N" using n by (simp add: N_def)
  have s0: "0 \<le> s" using b1 by simp
  have "s * a1 \<le> s * (1001 / 1000 * N)" by (rule mult_left_mono [OF b4 s0])
  then have sa: "s * a1 \<le> 1001 / 1000 * (s * N)" by simp
  have sa0: "0 \<le> s * a1" using s0 b5 by simp
  then have "\<bar>s * a1\<bar> \<le> 1001 / 1000 * (6 / 5 * W)" using sa b3 by linarith
  from fl_abs_le [OF this] have f1: "\<bar>fl (s * a1)\<bar> \<le> 123 / 100 * W" using W by linarith
  have "0 \<le> fl (s * a1)" by (rule fl_nonneg [OF sa0])
  with f1 b6 b7 W have "\<bar>w0 - fl (s * a1)\<bar> \<le> 123 / 100 * W" by linarith
  from fl_abs_le [OF this] have "\<bar>fl (w0 - fl (s * a1))\<bar> \<le> 124 / 100 * W" using W by linarith
  then have "\<bar>fl (w0 - fl (s * a1)) * align\<bar> \<le> 62 / 100 * W"
    by (simp add: align_def abs_mult)
  from fl_abs_le [OF this] have "\<bar>fl (fl (w0 - fl (s * a1)) * align)\<bar> \<le> 63 / 100 * W"
    using W by linarith
  then have "\<bar>0 + fl (fl (w0 - fl (s * a1)) * align)\<bar> \<le> 63 / 100 * W" by simp
  from fl_abs_le [OF this] have "\<bar>fl (0 + fl (fl (w0 - fl (s * a1)) * align))\<bar> \<le> W"
    using W by linarith
  moreover have "bandStart n W = fl (0 + fl (fl (w0 - fl (s * a1)) * align))"
    using W by (simp add: bandStart_def Let_def s_def a1_def w0_def N_def)
  ultimately show "\<bar>bandStart n W\<bar> \<le> W" by simp
  have o: "fl (1 - paddingInner) \<le> 1" "0 \<le> fl (1 - paddingInner)"
    by (simp_all add: padding_rest)
  have "s * fl (1 - paddingInner) \<le> s * 1" by (rule mult_left_mono [OF o(1) s0])
  moreover have "0 \<le> s * fl (1 - paddingInner)" using s0 o(2) by simp
  moreover have "s * 1 \<le> s * N" by (rule mult_left_mono [OF N s0])
  ultimately have "\<bar>s * fl (1 - paddingInner)\<bar> \<le> 6 / 5 * W" using b3 by linarith
  from fl_abs_le [OF this] have "\<bar>bandwidth n W\<bar> \<le> 13 / 10 * W"
    using W by (simp add: bandwidth_def s_def)
  then have "\<bar>bandwidth n W / 2\<bar> \<le> 13 / 20 * W" by simp
  from fl_abs_le [OF this] show "\<bar>fl (bandwidth n W / 2)\<bar> \<le> W" using W by linarith
qed

lemma bandCenter_close:
  assumes W: "0 < W" and i: "i < n"
  shows "\<bar>bandCenter n W i - (bandStart n W + bandStep n W * of_nat i + fl (bandwidth n W / 2))\<bar>
     \<le> 7 * W / 2 ^ 53"
proof -
  have n: "1 \<le> n" using i by simp
  define s where "s = bandStep n W"
  define st where "st = bandStart n W"
  define h where "h = fl (bandwidth n W / 2)"
  define I :: rat where "I = of_nat i"
  have b1: "0 < s" and b3: "s * of_nat n \<le> 6 / 5 * W"
    using bandStep_bounds [OF W n] by (simp_all add: s_def)
  have m: "\<bar>st\<bar> \<le> W" "\<bar>h\<bar> \<le> W"
    using band_magnitudes [OF W n] by (simp_all add: st_def h_def)
  have s0: "0 \<le> s" using b1 by simp
  have I0: "0 \<le> I" by (simp add: I_def)
  have "I \<le> of_nat n" using i by (simp add: I_def)
  from mult_left_mono [OF this s0] b3 have "s * I \<le> 6 / 5 * W" by linarith
  moreover have "0 \<le> s * I" using s0 I0 by simp
  ultimately have t0: "\<bar>s * I\<bar> \<le> 6 / 5 * W" by linarith
  define t where "t = fl (s * I)"
  have t1: "\<bar>t - s * I\<bar> \<le> 6 / 5 * W / 2 ^ 53" unfolding t_def by (rule fl_close_bound [OF t0])
  have "\<bar>t\<bar> \<le> 1001 / 1000 * (6 / 5 * W)" unfolding t_def by (rule fl_abs_le [OF t0])
  with m(1) W have v0: "\<bar>st + t\<bar> \<le> 23 / 10 * W" by linarith
  define v where "v = fl (st + t)"
  have v1: "\<bar>v - (st + t)\<bar> \<le> 23 / 10 * W / 2 ^ 53" unfolding v_def by (rule fl_close_bound [OF v0])
  have "\<bar>v\<bar> \<le> 1001 / 1000 * (23 / 10 * W)" unfolding v_def by (rule fl_abs_le [OF v0])
  with m(2) W have c0: "\<bar>v + h\<bar> \<le> 7 / 2 * W" by linarith
  have c1: "\<bar>fl (v + h) - (v + h)\<bar> \<le> 7 / 2 * W / 2 ^ 53" by (rule fl_close_bound [OF c0])
  have "bandCenter n W i = fl (v + h)"
    by (simp add: bandCenter_def v_def t_def st_def s_def h_def I_def)
  moreover have "\<bar>fl (v + h) - (st + s * I + h)\<bar> \<le> 7 * W / 2 ^ 53"
    using t1 v1 c1 by linarith
  ultimately show ?thesis by (simp add: st_def s_def h_def I_def)
qed

lemma bandCenter_strict_mono:
  assumes W: "0 < W" and n: "n < 2 ^ 32" and ij: "i < j" "j < n"
  shows "bandCenter n W i < bandCenter n W j"
proof -
  have n1: "1 \<le> n" using ij by simp
  define s where "s = bandStep n W"
  have b1: "0 < s" and b2: "3 / 4 * W \<le> s * of_nat n"
    using bandStep_bounds [OF W n1] by (simp_all add: s_def)
  have s0: "0 \<le> s" using b1 by simp
  have "(of_nat n :: rat) \<le> of_nat (2 ^ 32)" using n by (simp only: of_nat_le_iff)
  then have "(of_nat n :: rat) \<le> 2 ^ 32" by simp
  from mult_left_mono [OF this s0] b2 have Ws: "3 / 4 * W \<le> s * 2 ^ 32" by linarith
  have "(of_nat i :: rat) + 1 \<le> of_nat j" using ij(1) by (simp flip: of_nat_Suc add: Suc_leI)
  from mult_left_mono [OF this s0] have d: "s * of_nat i + s \<le> s * of_nat j"
    by (simp add: algebra_simps)
  have ci: "\<bar>bandCenter n W i
        - (bandStart n W + s * of_nat i + fl (bandwidth n W / 2))\<bar> \<le> 7 * W / 2 ^ 53"
    using bandCenter_close [OF W less_trans [OF ij]] by (simp add: s_def)
  have cj: "\<bar>bandCenter n W j
        - (bandStart n W + s * of_nat j + fl (bandwidth n W / 2))\<bar> \<le> 7 * W / 2 ^ 53"
    using bandCenter_close [OF W ij(2)] by (simp add: s_def)
  have "14 * W / 2 ^ 53 < s" using Ws b1 by simp
  with ci cj d show ?thesis by linarith
qed

lemma foldl_setAdd_distinct_append:
  "distinct (acc @ xs) \<Longrightarrow> foldl setAdd acc xs = acc @ xs"
  by (induction xs arbitrary: acc) auto

lemma newSet_distinct_id: "distinct xs \<Longrightarrow> newSet xs = xs"
  by (simp add: newSet_def foldl_setAdd_distinct_append)

lemma indexOf_nth: "distinct xs \<Longrightarrow> i < length xs \<Longrightarrow> indexOf xs (xs ! i) = Some i"
proof (induction xs arbitrary: i)
  case Nil
  then show ?case by simp
next
  case (Cons u us)
  show ?case
  proof (cases i)
    case 0
    then show ?thesis by simp
  next
    case (Suc j)
    with Cons.prems have "us ! j \<in> set us" "u \<notin> set us" by simp_all
    then have "u \<noteq> us ! j" by auto
    with Cons Suc show ?thesis by simp
  qed
qed

lemma those_map_Some: "those (map (\<lambda>x. Some (f x)) xs) = Some (map f xs)"
  by (induction xs) simp_all

lemma indexOf_in: "v \<in> set xs \<Longrightarrow> \<exists>i. indexOf xs v = Some i"
  by (induction xs) auto

lemma those_defined:
  "(\<And>x. x \<in> set xs \<Longrightarrow> \<exists>y. f x = Some y) \<Longrightarrow> \<exists>ys. those (map f xs) = Some ys"
proof (induction xs)
  case Nil
  show ?case by simp
next
  case (Cons x xs)
  from Cons.prems [of x] obtain y where y: "f x = Some y" by auto
  from Cons.IH Cons.prems obtain ys where "those (map f xs) = Some ys" by auto
  with y show ?case by simp
qed

lemma xCenters_defined: "\<exists>cs. xCenters width dcs = Some cs"
  unfolding xCenters_def
proof (rule those_defined)
  fix d assume "d \<in> set dcs"
  then have "day d \<in> set (newSet (map day dcs))" by (simp add: newSet_set)
  from indexOf_in [OF this] obtain i where "indexOf (newSet (map day dcs)) (day d) = Some i" ..
  then show "\<exists>y. map_option
                (\<lambda>xd. fl (xd + fl (bandwidth (length (newSet (map day dcs))) width / 2)))
                (scaleBand (map day dcs) width (day d)) = Some y"
    by (simp add: scaleBand_def Let_def)
qed

lemma xCenters_distinct:
  assumes "distinct (map day dcs)" and "0 \<le> width"
  shows "xCenters width dcs = Some (map (bandCenter (length dcs) width) [0..<length dcs])"
proof -
  let ?n = "length dcs"
  let ?f = "\<lambda>d. map_option
                (\<lambda>xd. fl (xd + fl (bandwidth (length (newSet (map day dcs))) width / 2)))
                (scaleBand (map day dcs) width (day d))"
  have ns: "newSet (map day dcs) = map day dcs" by (rule newSet_distinct_id [OF assms(1)])
  have "map ?f dcs = map (\<lambda>i. Some (bandCenter ?n width i)) [0..<?n]"
  proof (rule nth_equalityI)
    show "length (map ?f dcs) = length (map (\<lambda>i. Some (bandCenter ?n width i)) [0..<?n])"
      by simp
  next
    fix i assume "i < length (map ?f dcs)"
    then have i: "i < ?n" by simp
    have "indexOf (map day dcs) (day (dcs ! i)) = Some i"
      using indexOf_nth [OF assms(1), of i] i by simp
    then show "map ?f dcs ! i = map (\<lambda>i. Some (bandCenter ?n width i)) [0..<?n] ! i"
      using i assms(2) by (simp add: scaleBand_def ns bandCenter_def Let_def)
  qed
  then show ?thesis by (simp add: xCenters_def those_map_Some)
qed

lemma bisectLeft_spec:
  "sorted a \<Longrightarrow> lo \<le> hi \<Longrightarrow> hi \<le> length a \<Longrightarrow>
     lo \<le> bisectLeft a x lo hi \<and> bisectLeft a x lo hi \<le> hi
     \<and> (\<forall>j. lo \<le> j \<and> j < bisectLeft a x lo hi \<longrightarrow> a ! j < x)
     \<and> (\<forall>j. bisectLeft a x lo hi \<le> j \<and> j < hi \<longrightarrow> x \<le> a ! j)"
proof (induction a x lo hi rule: bisectLeft.induct)
  case (1 a x lo hi)
  note srt = sorted_iff_nth_mono [THEN iffD1, OF "1.prems"(1), rule_format]
  show ?case
  proof (cases "lo < hi")
    case False
    then have "bisectLeft a x lo hi = lo" by (simp add: bisectLeft.simps [of a x lo hi])
    with False "1.prems" show ?thesis by simp
  next
    case True
    define mid where "mid = (lo + hi) div 2"
    have mid: "lo \<le> mid" "mid < hi" using True by (simp_all add: mid_def)
    then have ml: "mid < length a" using "1.prems" by simp
    show ?thesis
    proof (cases "a ! mid < x")
      case lt: True
      have r: "bisectLeft a x lo hi = bisectLeft a x (mid + 1) hi"
        using True lt ml by (simp add: bisectLeft.simps [of a x lo hi] mid_def Let_def)
      have ih: "mid + 1 \<le> bisectLeft a x (mid + 1) hi \<and> bisectLeft a x (mid + 1) hi \<le> hi
         \<and> (\<forall>j. mid + 1 \<le> j \<and> j < bisectLeft a x (mid + 1) hi \<longrightarrow> a ! j < x)
         \<and> (\<forall>j. bisectLeft a x (mid + 1) hi \<le> j \<and> j < hi \<longrightarrow> x \<le> a ! j)"
        using "1.IH"(1) [OF True mid_def] lt ml mid "1.prems" by simp
      have low: "a ! j < x" if "lo \<le> j" "j < bisectLeft a x (mid + 1) hi" for j
      proof (cases "j \<le> mid")
        case True
        have "a ! j \<le> a ! mid" by (rule srt [OF True ml])
        with lt show ?thesis by simp
      next
        case False
        with ih that show ?thesis by simp
      qed
      from ih low mid show ?thesis unfolding r by auto
    next
      case ge: False
      have r: "bisectLeft a x lo hi = bisectLeft a x lo mid"
        using True ge by (simp add: bisectLeft.simps [of a x lo hi] mid_def Let_def)
      have ih: "lo \<le> bisectLeft a x lo mid \<and> bisectLeft a x lo mid \<le> mid
         \<and> (\<forall>j. lo \<le> j \<and> j < bisectLeft a x lo mid \<longrightarrow> a ! j < x)
         \<and> (\<forall>j. bisectLeft a x lo mid \<le> j \<and> j < mid \<longrightarrow> x \<le> a ! j)"
        using "1.IH"(2) [OF True mid_def] ge mid "1.prems" by simp
      have high: "x \<le> a ! j" if "bisectLeft a x lo mid \<le> j" "j < hi" for j
      proof (cases "j < mid")
        case True
        with ih that show ?thesis by simp
      next
        case False
        then have "mid \<le> j" by simp
        moreover have "j < length a" using that "1.prems" by simp
        ultimately have "a ! mid \<le> a ! j" by (rule srt)
        with ge show ?thesis by simp
      qed
      from ih high mid show ?thesis unfolding r by auto
    qed
  qed
qed

lemma bisectLeft_at_element:
  assumes "sorted a" "distinct a" "i < length a"
  shows "bisectLeft a (a ! i) 0 (length a - 1) = i"
proof -
  let ?r = "bisectLeft a (a ! i) 0 (length a - 1)"
  note sp = bisectLeft_spec [OF assms(1), of 0 "length a - 1" "a ! i"]
  have r: "?r \<le> length a - 1"
    and low: "\<And>j. j < ?r \<Longrightarrow> a ! j < a ! i"
    and high: "\<And>j. ?r \<le> j \<Longrightarrow> j < length a - 1 \<Longrightarrow> a ! i \<le> a ! j"
    using sp by simp_all
  note srt = sorted_iff_nth_mono [THEN iffD1, OF assms(1), rule_format]
  show ?thesis
  proof (rule ccontr)
    assume "?r \<noteq> i"
    then consider "i < ?r" | "?r < i" by linarith
    then show False
    proof cases
      case 1
      from low [OF 1] show False by simp
    next
      case 2
      then have "?r < length a - 1" using assms(3) by simp
      from high [OF order_refl this] have "a ! i \<le> a ! ?r" .
      moreover have "a ! ?r \<le> a ! i" using 2 assms(3) by (intro srt) simp_all
      ultimately have "a ! ?r = a ! i" by simp
      with assms(2,3) 2 show False by (simp add: nth_eq_iff_index_eq)
    qed
  qed
qed

lemma bisectLeft_between:
  assumes "sorted a" "Suc i < length a" "a ! i < x" "x \<le> a ! Suc i"
  shows "bisectLeft a x 0 (length a - 1) = Suc i"
proof -
  let ?r = "bisectLeft a x 0 (length a - 1)"
  note sp = bisectLeft_spec [OF assms(1), of 0 "length a - 1" x]
  have r: "?r \<le> length a - 1"
    and low: "\<And>j. j < ?r \<Longrightarrow> a ! j < x"
    and high: "\<And>j. ?r \<le> j \<Longrightarrow> j < length a - 1 \<Longrightarrow> x \<le> a ! j"
    using sp by simp_all
  note srt = sorted_iff_nth_mono [THEN iffD1, OF assms(1), rule_format]
  show ?thesis
  proof (rule ccontr)
    assume "?r \<noteq> Suc i"
    then consider "Suc i < ?r" | "?r \<le> i" by linarith
    then show False
    proof cases
      case 1
      from low [OF 1] assms(4) show False by simp
    next
      case 2
      have "i < length a - 1" using assms(2) by simp
      from high [OF 2 this] assms(3) show False by simp
    qed
  qed
qed

lemma bisectCenter_at_element:
  assumes "sorted a" "distinct a" "i < length a"
  shows "bisectCenter a (a ! i) = i"
proof -
  have l: "bisectLeft a (a ! i) 0 (length a - 1) = i"
    by (rule bisectLeft_at_element [OF assms])
  have "a ! (i - 1) \<le> a ! i"
    using assms(1,3) by (simp add: sorted_iff_nth_mono)
  then have "fl (a ! (i - 1) - a ! i) \<le> 0" by (intro fl_nonpos) simp
  then have "\<not> (fl (a ! (i - 1) - a ! i) > - fl (a ! i - a ! i))" by (simp add: fl_zero)
  then show ?thesis
    unfolding bisectCenter_def Let_def l by (simp only: simp_thms if_False)
qed

lemma bisectCenter_equidistant:
  assumes "sorted a" "Suc i < length a" "a ! i < a ! Suc i" "x - a ! i = a ! Suc i - x"
  shows "bisectCenter a x = Suc i"
proof -
  have "a ! i < x" "x \<le> a ! Suc i" using assms(3,4) by linarith+
  from bisectLeft_between [OF assms(1,2) this]
  have l: "bisectLeft a x 0 (length a - 1) = Suc i" .
  have "a ! i - x = - (a ! Suc i - x)" using assms(4) by linarith
  then have "fl (a ! i - x) = - fl (a ! Suc i - x)" by (simp only: fl_minus)
  then have "\<not> fl (a ! (Suc i - 1) - x) > - fl (a ! Suc i - x)" by simp
  then show ?thesis
    unfolding bisectCenter_def Let_def l by (simp only: simp_thms if_False)
qed

text \<open>
  Claim C6, as amended. Let \<open>dcs\<close> be a list of day buckets with the day indexes 1
  to \<open>n\<close>, as the builder makes them, not longer than an array can be, on a scale
  of positive width. The band centers grow strictly. For a pointer offset that is
  exactly the band center of a day the resolver returns the position of that
  day's bucket; and for every pointer offset that is equidistant from two adjacent
  band centers it returns the higher of the two positions.
\<close>

theorem C6_hover_index:
  assumes "0 < width" and "map day dcs = map Some [1..<Suc (length dcs)]"
    and "length dcs < 2 ^ 32" and "i < length dcs"
  shows "\<exists>cs. xCenters width dcs = Some cs \<and> length cs = length dcs
     \<and> sorted_wrt (<) cs
     \<and> hoverIndex width dcs (cs ! i) = Some i
     \<and> (\<forall>mx. Suc i < length dcs \<and> mx - cs ! i = cs ! Suc i - mx
           \<longrightarrow> hoverIndex width dcs mx = Some (Suc i))"
proof -
  let ?n = "length dcs"
  let ?cs = "map (bandCenter ?n width) [0..<?n]"
  have "distinct (map day dcs)" unfolding assms(2) by (simp add: distinct_map)
  then have xc: "xCenters width dcs = Some ?cs"
    using assms(1) by (intro xCenters_distinct) simp_all
  have mono: "?cs ! j < ?cs ! k" if "j < k" "k < ?n" for j k
    using that bandCenter_strict_mono [OF assms(1,3), of j k] by simp
  have strict: "sorted_wrt (<) ?cs"
    unfolding sorted_wrt_iff_nth_less
  proof (intro allI impI)
    fix j k assume "j < k" "k < length ?cs"
    then show "?cs ! j < ?cs ! k" using mono [of j k] by simp
  qed
  have srt: "sorted ?cs"
    unfolding sorted_iff_nth_mono
  proof (intro allI impI)
    fix j k assume "j \<le> k" "k < length ?cs"
    then show "?cs ! j \<le> ?cs ! k"
      using mono [of j k] by (cases "j = k") simp_all
  qed
  have dst: "distinct ?cs"
    unfolding distinct_conv_nth
  proof (intro allI impI)
    fix j k assume "j < length ?cs" "k < length ?cs" "j \<noteq> k"
    then show "?cs ! j \<noteq> ?cs ! k"
      using mono [of j k] mono [of k j] by (cases "j < k") simp_all
  qed
  have a: "hoverIndex width dcs (?cs ! i) = Some i"
    using bisectCenter_at_element [OF srt dst, of i] assms(4) by (simp add: hoverIndex_def xc)
  have b: "hoverIndex width dcs mx = Some (Suc i)"
    if "Suc i < ?n \<and> mx - ?cs ! i = ?cs ! Suc i - mx" for mx
  proof -
    from that have s: "Suc i < length ?cs" by simp
    from that have e: "mx - ?cs ! i = ?cs ! Suc i - mx" by (rule conjunct2)
    have "?cs ! i < ?cs ! Suc i" using mono [of i "Suc i"] that by simp
    from bisectCenter_equidistant [OF srt s this e] show ?thesis
      by (simp add: hoverIndex_def xc)
  qed
  show ?thesis
  proof (intro exI conjI allI impI)
    show "xCenters width dcs = Some ?cs" by (rule xc)
    show "length ?cs = length dcs" by simp
    show "sorted_wrt (<) ?cs" by (rule strict)
    show "hoverIndex width dcs (?cs ! i) = Some i" by (rule a)
    show "hoverIndex width dcs mx = Some (Suc i)"
      if "Suc i < ?n \<and> mx - ?cs ! i = ?cs ! Suc i - mx" for mx
      using that by (rule b)
  qed
qed

text \<open>Four day buckets on the width of GamesPlayed.vue.\<close>

lemma bandStep_four: "bandStep 4 680 = 1458864208561327 / 8796093022208"
  by code_simp

lemma bandStart_four:
  "fl (0 + fl (fl (fl (680 - 0) - fl (1458864208561327 / 8796093022208 * fl (4 - paddingInner)))
               * align)) = 291772841712265 / 17592186044416"
  by code_simp

lemma halfBandwidth_four:
  "fl (fl (1458864208561327 / 8796093022208 * fl (1 - paddingInner)) / 2)
     = 5251911150820777 / 70368744177664"
  by code_simp

lemma bandCenter_four:
  "map (\<lambda>i. fl (fl (291772841712265 / 17592186044416
                      + fl (1458864208561327 / 8796093022208 * of_nat i))
                  + 5251911150820777 / 70368744177664)) [0, 1, 2, 3]
     = [6419002517669837 / 70368744177664, 4522479046540113 / 17592186044416,
        7440207463662767 / 17592186044416, 5178967940392711 / 8796093022208]"
  by code_simp

lemma xCenters_four:
  "xCenters 680 [\<lparr>day = Some 1, count = 2\<rparr>, \<lparr>day = Some 2, count = 0\<rparr>,
                 \<lparr>day = Some 3, count = 1\<rparr>, \<lparr>day = Some 4, count = 3\<rparr>]
     = Some [6419002517669837 / 70368744177664, 4522479046540113 / 17592186044416,
             7440207463662767 / 17592186044416, 5178967940392711 / 8796093022208]"
proof -
  let ?dcs = "[\<lparr>day = Some 1, count = 2\<rparr>, \<lparr>day = Some 2, count = 0\<rparr>,
               \<lparr>day = Some 3, count = 1\<rparr>, \<lparr>day = Some 4, count = 3\<rparr>]"
  have d: "distinct (map day ?dcs)" by simp
  have w: "0 \<le> (680::rat)" by simp
  have st: "bandStart 4 680 = 291772841712265 / 17592186044416"
    unfolding bandStart_def Let_def bandStep_four using bandStart_four by simp
  have h: "fl (bandwidth 4 680 / 2) = 5251911150820777 / 70368744177664"
    unfolding bandwidth_def bandStep_four by (rule halfBandwidth_four)
  have u: "[0..<4] = [0, 1, 2, 3::nat]" by (simp add: upt_rec)
  have "map (bandCenter 4 680) [0..<4]
      = map (\<lambda>i. fl (fl (291772841712265 / 17592186044416
                      + fl (1458864208561327 / 8796093022208 * of_nat i))
                  + 5251911150820777 / 70368744177664)) [0, 1, 2, 3]"
    unfolding u bandCenter_def st h bandStep_four by (rule refl)
  then have m: "map (bandCenter 4 680) [0..<4]
      = [6419002517669837 / 70368744177664, 4522479046540113 / 17592186044416,
        7440207463662767 / 17592186044416, 5178967940392711 / 8796093022208]"
    by (simp only: bandCenter_four)
  have l: "length ?dcs = 4" by simp
  show ?thesis unfolding xCenters_distinct [OF d w] l m by (rule refl)
qed

text \<open>
  Two day buckets on the same width: the offset 340, the middle of the range, is
  nearer to the first band center than to the second as the scale computes them,
  and the resolver returns position 0.
\<close>

lemma xCenters_two:
  "xCenters 680 [\<lparr>day = Some 1, count = 2\<rparr>, \<lparr>day = Some 2, count = 1\<rparr>]
     = Some [3133084562195993 / 17592186044416, 1103700243500861 / 2199023255552]"
  by code_simp

lemma hover_two_buckets:
  "340 - 3133084562195993 / 17592186044416 < 1103700243500861 / 2199023255552 - (340::rat)
   \<and> hoverIndex 680 [\<lparr>day = Some 1, count = 2\<rparr>, \<lparr>day = Some 2, count = 1\<rparr>] 340
     = Some 0"
proof -
  have "bisectCenter [3133084562195993 / 17592186044416, 1103700243500861 / 2199023255552] 340
      = 0"
    by code_simp
  then show ?thesis unfolding hoverIndex_def xCenters_two by simp
qed

theorem C6_witness:
  "xCenters 680 [\<lparr>day = Some 1, count = 2\<rparr>, \<lparr>day = Some 2, count = 0\<rparr>,
                 \<lparr>day = Some 3, count = 1\<rparr>, \<lparr>day = Some 4, count = 3\<rparr>]
     = Some [6419002517669837 / 70368744177664, 4522479046540113 / 17592186044416,
             7440207463662767 / 17592186044416, 5178967940392711 / 8796093022208]
   \<and> hoverIndex 680 [\<lparr>day = Some 1, count = 2\<rparr>, \<lparr>day = Some 2, count = 0\<rparr>,
                     \<lparr>day = Some 3, count = 1\<rparr>, \<lparr>day = Some 4, count = 3\<rparr>]
       (6419002517669837 / 70368744177664) = Some 0
   \<and> hoverIndex 680 [\<lparr>day = Some 1, count = 2\<rparr>, \<lparr>day = Some 2, count = 0\<rparr>,
                     \<lparr>day = Some 3, count = 1\<rparr>, \<lparr>day = Some 4, count = 3\<rparr>]
       (24508918703830289 / 140737488355328) = Some 1"
proof -
  let ?dcs = "[\<lparr>day = Some 1, count = 2\<rparr>, \<lparr>day = Some 2, count = 0\<rparr>,
               \<lparr>day = Some 3, count = 1\<rparr>, \<lparr>day = Some 4, count = 3\<rparr>]"
  have h1: "0 < (680::rat)" by simp
  have h2: "map day ?dcs = map Some [1..<Suc (length ?dcs)]" by (simp add: upt_conv_Cons)
  have h3: "length ?dcs < 2 ^ 32" by simp
  have h4: "0 < length ?dcs" by simp
  from C6_hover_index [OF h1 h2 h3 h4] obtain cs where cs: "xCenters 680 ?dcs = Some cs"
    and a: "hoverIndex 680 ?dcs (cs ! 0) = Some 0"
    and b: "\<forall>mx. Suc 0 < length ?dcs \<and> mx - cs ! 0 = cs ! Suc 0 - mx
        \<longrightarrow> hoverIndex 680 ?dcs mx = Some (Suc 0)"
    by blast
  from cs xCenters_four have c: "cs = [6419002517669837 / 70368744177664,
      4522479046540113 / 17592186044416, 7440207463662767 / 17592186044416,
      5178967940392711 / 8796093022208]" by simp
  from b [rule_format, of "24508918703830289 / 140737488355328"]
  have "hoverIndex 680 ?dcs (24508918703830289 / 140737488355328) = Some (Suc 0)"
    unfolding c by simp
  with a c xCenters_four show ?thesis by simp
qed

text \<open>
  The claim as stated fails: with four day buckets and the width 680 of
  GamesPlayed.vue, the pointer offset 340 is equidistant from the band centers of
  the second and the third bucket (positions 1 and 2), and the resolver returns
  position 2, the higher one.
\<close>

theorem C6_counterexample:
  "xCenters 680 [\<lparr>day = Some 1, count = 2\<rparr>, \<lparr>day = Some 2, count = 0\<rparr>,
                 \<lparr>day = Some 3, count = 1\<rparr>, \<lparr>day = Some 4, count = 3\<rparr>]
     = Some [6419002517669837 / 70368744177664, 4522479046540113 / 17592186044416,
             7440207463662767 / 17592186044416, 5178967940392711 / 8796093022208]
   \<and> 340 - 4522479046540113 / 17592186044416 = 7440207463662767 / 17592186044416 - (340::rat)
   \<and> hoverIndex 680 [\<lparr>day = Some 1, count = 2\<rparr>, \<lparr>day = Some 2, count = 0\<rparr>,
                     \<lparr>day = Some 3, count = 1\<rparr>, \<lparr>day = Some 4, count = 3\<rparr>] 340
     = Some 2"
proof -
  have b: "bisectCenter [6419002517669837 / 70368744177664, 4522479046540113 / 17592186044416,
             7440207463662767 / 17592186044416, 5178967940392711 / 8796093022208] 340 = 2"
    by code_simp
  have e: "340 - 4522479046540113 / 17592186044416
      = 7440207463662767 / 17592186044416 - (340::rat)" by simp
  from b e show ?thesis unfolding hoverIndex_def xCenters_four by simp
qed

end
